theory Spec2Isabelle
  imports Main "HOL-Library.Sublist"
begin

section \<open>Text primitives of the Python runtime\<close>

text \<open>
  A Python \<open>str\<close> is modelled as a \<open>string\<close> (a list of \<open>char\<close>); the characters
  of the model are the code points below 256.  Python's integers are \<open>int\<close>.
\<close>

definition digit_char :: "nat \<Rightarrow> char" where
  "digit_char d = ''0123456789'' ! d"

text \<open>\<open>str(i)\<close> for an integer: decimal digits, most significant first, \<open>-\<close> for a negative one.\<close>

function str_nat :: "nat \<Rightarrow> string" where
  "str_nat n = (if n < 10 then [digit_char n] else str_nat (n div 10) @ [digit_char (n mod 10)])"
  by pat_completeness auto
termination
  by (relation "measure (\<lambda>n. n)") auto

declare str_nat.simps [simp del]

definition is_digit :: "char \<Rightarrow> bool" where
  "is_digit c = (c \<in> set ''0123456789'')"

definition str :: "int \<Rightarrow> string" where
  "str i = (if i < 0 then CHR ''-'' # str_nat (nat (- i)) else str_nat (nat i))"

text \<open>\<open>range(k)\<close>: the integers \<open>0, ..., k - 1\<close>, none when \<open>k \<le> 0\<close>.\<close>

definition range :: "int \<Rightarrow> int list" where
  "range k = map int [0..<nat k]"

text \<open>Number of positions of a text at which a pattern text occurs.\<close>

fun count_sub :: "string \<Rightarrow> string \<Rightarrow> nat" where
  "count_sub p [] = (if p = [] then 1 else 0)"
| "count_sub p (c # cs) = (if prefix p (c # cs) then 1 else 0) + count_sub p cs"

text \<open>\<open>contains p s\<close>: the Python test \<open>p in s\<close>.\<close>

fun contains :: "string \<Rightarrow> string \<Rightarrow> bool" where
  "contains p [] = (p = [])"
| "contains p (c # cs) = (prefix p (c # cs) \<or> contains p cs)"

section \<open>The module generator (generate_large_module.py)\<close>

definition generate_large_module :: "int \<Rightarrow> string" where
  \<open>generate_large_module num_functions =
    (let code = ''// Large module for performance testing\<newline>// This module contains ''
                @ str num_functions
                @ '' functions to test compilation and loading performance\<newline>\<newline>'';
         code = fold (\<lambda>i code. code
                  @ ''func privateHelper'' @ str i @ ''(x) {\<newline>    let result = x * ''
                  @ str (i + 1) @ ''\<newline>    return result\<newline>}\<newline>\<newline>'')
                  (range (num_functions div 2)) code;
         code = fold (\<lambda>i code. code
                  @ ''export func publicFunction'' @ str i
                  @ ''(a, b) {\<newline>    let temp = privateHelper'' @ str (i mod 10)
                  @ ''(a)\<newline>    return temp + b\<newline>}\<newline>\<newline>'')
                  (range (num_functions div 2)) code;
         code = code @ ''// Module initialization\<newline>print("[Large Module] Loaded with ''
                @ str num_functions @ '' functions")\<newline>''
     in code)\<close>

text \<open>The pieces of the generated text, named for the statements below.\<close>

definition header_text :: "int \<Rightarrow> string" where
  \<open>header_text n = ''// Large module for performance testing\<newline>// This module contains ''
     @ str n @ '' functions to test compilation and loading performance\<newline>\<newline>''\<close>

definition footer_text :: "int \<Rightarrow> string" where
  \<open>footer_text n = ''// Module initialization\<newline>print("[Large Module] Loaded with ''
     @ str n @ '' functions")\<newline>''\<close>

text \<open>A private helper with index \<open>i\<close> that multiplies by \<open>m\<close>.\<close>

definition helper_text :: "int \<Rightarrow> int \<Rightarrow> string" where
  \<open>helper_text i m = ''func privateHelper'' @ str i @ ''(x) {\<newline>    let result = x * ''
     @ str m @ ''\<newline>    return result\<newline>}\<newline>\<newline>''\<close>

text \<open>An exported function with index \<open>i\<close> that calls the helper with index \<open>j\<close>.\<close>

definition exported_text :: "int \<Rightarrow> int \<Rightarrow> string" where
  \<open>exported_text i j = ''export func publicFunction'' @ str i
     @ ''(a, b) {\<newline>    let temp = privateHelper'' @ str j
     @ ''(a)\<newline>    return temp + b\<newline>}\<newline>\<newline>''\<close>

section \<open>String methods used by the rewriter\<close>

text \<open>
  \<open>s.find(sub, start)\<close>: the lowest index at or after \<open>start\<close> where \<open>sub\<close> occurs,
  \<open>-1\<close> when there is none.  A negative \<open>start\<close> counts from the end and is clamped
  to 0; a \<open>start\<close> beyond the end finds nothing.
\<close>

fun find_at :: "string \<Rightarrow> string \<Rightarrow> nat \<Rightarrow> int" where
  "find_at sub [] i = (if sub = [] then int i else - 1)"
| "find_at sub (c # cs) i = (if prefix sub (c # cs) then int i else find_at sub cs (Suc i))"

definition py_find :: "string \<Rightarrow> string \<Rightarrow> int \<Rightarrow> int" where
  "py_find s sub start =
     (let n = int (length s);
          st = (if start < 0 then max (start + n) 0 else start)
      in if n < st then - 1 else find_at sub (drop (nat st) s) (nat st))"

text \<open>
  \<open>s.replace(old, new, count)\<close>: the first \<open>count\<close> occurrences of \<open>old\<close>, found from
  the left without overlap, are replaced; a negative \<open>count\<close> (Python's default
  \<open>-1\<close>) replaces all of them.  For an empty \<open>old\<close> Python inserts \<open>new\<close> before each
  character and at the end.
\<close>

fun interleave :: "string \<Rightarrow> string \<Rightarrow> int \<Rightarrow> string" where
  "interleave new [] count = (if count = 0 then [] else new)"
| "interleave new (c # cs) count =
     (if count = 0 then c # cs else new @ c # interleave new cs (count - 1))"

function py_replace :: "string \<Rightarrow> string \<Rightarrow> string \<Rightarrow> int \<Rightarrow> string" where
  "py_replace s old new count =
     (if count = 0 then s
      else if old = [] then interleave new s count
      else (case s of
              [] \<Rightarrow> []
            | c # cs \<Rightarrow>
                if prefix old s then new @ py_replace (drop (length old) s) old new (count - 1)
                else c # py_replace cs old new count))"
  by pat_completeness auto
termination
  by (relation "measure (\<lambda>(s, old, new, count). length s)") auto

declare py_replace.simps [simp del]

text \<open>\<open>s.count(c)\<close> for a single character \<open>c\<close>.\<close>

definition count_char :: "char \<Rightarrow> string \<Rightarrow> nat" where
  "count_char c s = length (filter (\<lambda>x. x = c) s)"

section \<open>Regular expressions of the rewriter\<close>

text \<open>
  The patterns of the script are sequences of literal characters, greedy repetitions of a
  character class (\<open>\s*\<close>, \<open>\w+\<close>, \<open>[^)]+\<close>, \<open>[^,]+\<close>), an optional character (\<open>\*?\<close>),
  capture groups that are neither nested nor repeated, and one negative lookahead.  They are
  matched as Python's backtracking matcher does: a greedy repetition first takes the longest
  run and gives characters back one at a time.
\<close>

datatype cls = Space | Word | NotRParen | NotComma

text \<open>
  \<open>\s\<close> and \<open>\w\<close> on a \<open>str\<close> pattern are Unicode-aware; these are their members among the
  code points below 256.
\<close>

definition is_space :: "char \<Rightarrow> bool" where
  "is_space c = (c \<in> set [CHR 0x09, CHR 0x0A, CHR 0x0B, CHR 0x0C, CHR 0x0D,
                            CHR 0x1C, CHR 0x1D, CHR 0x1E, CHR 0x1F, CHR 0x20,
                            CHR 0x85, CHR 0xA0])"

definition is_word :: "char \<Rightarrow> bool" where
  "is_word c =
     (let n = (of_char c :: nat)
      in (48 \<le> n \<and> n \<le> 57) \<or> (65 \<le> n \<and> n \<le> 90) \<or> n = 95 \<or> (97 \<le> n \<and> n \<le> 122)
         \<or> n = 170 \<or> n = 178 \<or> n = 179 \<or> n = 181 \<or> n = 185 \<or> n = 186
         \<or> (188 \<le> n \<and> n \<le> 190) \<or> (192 \<le> n \<and> n \<le> 214) \<or> (216 \<le> n \<and> n \<le> 246)
         \<or> 248 \<le> n)"

fun in_cls :: "cls \<Rightarrow> char \<Rightarrow> bool" where
  "in_cls Space c = is_space c"
| "in_cls Word c = is_word c"
| "in_cls NotRParen c = (c \<noteq> CHR '')'')"
| "in_cls NotComma c = (c \<noteq> CHR '','')"

datatype atom =
    Lit char
  | Many cls
  | Many1 cls
  | Opt char
  | GOpen
  | GClose
  | NotAhead "atom list"

definition lits :: "string \<Rightarrow> atom list" where
  "lits s = map Lit s"

text \<open>\<open>first_down f lo hi\<close>: the first success of \<open>f\<close> at \<open>hi, hi - 1, ..., lo\<close>.\<close>

fun first_down :: "(nat \<Rightarrow> 'a option) \<Rightarrow> nat \<Rightarrow> nat \<Rightarrow> 'a option" where
  "first_down f lo 0 = (if lo = 0 then f 0 else None)"
| "first_down f lo (Suc h) =
     (if Suc h < lo then None
      else (case f (Suc h) of Some r \<Rightarrow> Some r | None \<Rightarrow> first_down f lo h))"

text \<open>
  \<open>mt p s pos caps\<close> matches the pattern \<open>p\<close> at the start of \<open>s\<close>.  \<open>pos\<close> is the number
  of characters consumed so far and \<open>caps\<close> the group boundaries recorded so far; the result
  is the end position with the boundaries of all groups, or \<open>None\<close>.
\<close>

fun mt :: "atom list \<Rightarrow> string \<Rightarrow> nat \<Rightarrow> nat list \<Rightarrow> (nat \<times> nat list) option" where
  "mt [] s pos caps = Some (pos, caps)"
| "mt (Lit c # r) s pos caps =
     (case s of [] \<Rightarrow> None | x # xs \<Rightarrow> if x = c then mt r xs (Suc pos) caps else None)"
| "mt (Many k # r) s pos caps =
     first_down (\<lambda>j. mt r (drop j s) (pos + j) caps) 0 (length (takeWhile (in_cls k) s))"
| "mt (Many1 k # r) s pos caps =
     first_down (\<lambda>j. mt r (drop j s) (pos + j) caps) 1 (length (takeWhile (in_cls k) s))"
| "mt (Opt c # r) s pos caps =
     (case (case s of [] \<Rightarrow> None | x # xs \<Rightarrow> if x = c then mt r xs (Suc pos) caps else None) of
        Some res \<Rightarrow> Some res
      | None \<Rightarrow> mt r s pos caps)"
| "mt (GOpen # r) s pos caps = mt r s pos (caps @ [pos])"
| "mt (GClose # r) s pos caps = mt r s pos (caps @ [pos])"
| "mt (NotAhead q # r) s pos caps =
     (case mt q s pos caps of Some res \<Rightarrow> None | None \<Rightarrow> mt r s pos caps)"

text \<open>\<open>re_match p s\<close>: a match of \<open>p\<close> that starts at the first character of \<open>s\<close>.\<close>

definition re_match :: "atom list \<Rightarrow> string \<Rightarrow> (nat \<times> nat list) option" where
  "re_match p s = mt p s 0 []"

text \<open>A replacement template: literal text and group references \<open>\1\<close>, \<open>\2\<close>.\<close>

datatype rpart = RLit string | RGrp nat

definition cap :: "nat list \<Rightarrow> nat \<Rightarrow> nat" where
  "cap caps k = (if k < length caps then caps ! k else 0)"

text \<open>The text of group \<open>i\<close> (counted from 1) of a match that starts at the head of \<open>s\<close>.\<close>

definition group :: "string \<Rightarrow> nat list \<Rightarrow> nat \<Rightarrow> string" where
  "group s caps i = take (cap caps (2 * i - 1) - cap caps (2 * i - 2)) (drop (cap caps (2 * i - 2)) s)"

fun expand :: "rpart list \<Rightarrow> string \<Rightarrow> nat list \<Rightarrow> string" where
  "expand [] s caps = []"
| "expand (RLit t # r) s caps = t @ expand r s caps"
| "expand (RGrp i # r) s caps = group s caps i @ expand r s caps"

text \<open>
  \<open>re.sub(p, repl, s)\<close>: the text is scanned from the left; at the leftmost position where
  the pattern matches, the match is replaced and the scan goes on behind it.  No pattern
  of the script matches the empty text; for such a match the replacement is emitted and the
  scan moves on by one character.
\<close>

function re_sub :: "atom list \<Rightarrow> rpart list \<Rightarrow> string \<Rightarrow> string" where
  "re_sub p repl s =
     (case s of
        [] \<Rightarrow> (case re_match p [] of Some (n, caps) \<Rightarrow> expand repl [] caps | None \<Rightarrow> [])
      | c # cs \<Rightarrow>
          (case re_match p s of
             Some (n, caps) \<Rightarrow>
               if n = 0 then expand repl s caps @ c # re_sub p repl cs
               else expand repl s caps @ re_sub p repl (drop n s)
           | None \<Rightarrow> c # re_sub p repl cs))"
  by pat_completeness auto
termination
  by (relation "measure (\<lambda>(p, repl, s). length s)") auto

declare re_sub.simps [simp del]

text \<open>
  \<open>re.finditer(p, s)\<close>: the matches from the left, without overlap, each as its start
  index and its text (\<open>match.start()\<close>, \<open>match.group(0)\<close>).  \<open>off\<close> is the index of the head
  of \<open>s\<close> in the whole text.
\<close>

function finditer_from :: "atom list \<Rightarrow> string \<Rightarrow> nat \<Rightarrow> (nat \<times> string) list" where
  "finditer_from p s off =
     (case s of
        [] \<Rightarrow> (case re_match p [] of Some (n, caps) \<Rightarrow> [(off, [])] | None \<Rightarrow> [])
      | c # cs \<Rightarrow>
          (case re_match p s of
             Some (n, caps) \<Rightarrow>
               if n = 0 then (off, []) # finditer_from p cs (Suc off)
               else (off, take n s) # finditer_from p (drop n s) (off + n)
           | None \<Rightarrow> finditer_from p cs (Suc off)))"
  by pat_completeness auto
termination
  by (relation "measure (\<lambda>(p, s, off). length s)") auto

declare finditer_from.simps [simp del]

definition re_finditer :: "atom list \<Rightarrow> string \<Rightarrow> (nat \<times> string) list" where
  "re_finditer p s = finditer_from p s 0"

section \<open>The allocation rewriter (scripts/refactor_parser.py)\<close>

text \<open>The local \<open>includes\<close> of the script.\<close>

definition includes_text :: string where
  \<open>includes_text = ''#include "utils/allocators.h"\<newline>''\<close>

definition anchor_include :: string where
  \<open>anchor_include = ''#include "parser/parser.h"''\<close>

text \<open>The pattern \<open>#include <stdlib\.h>\n\<close>.\<close>

definition stdlib_pattern :: "atom list" where
  \<open>stdlib_pattern = lits ''#include <stdlib.h>\<newline>''\<close>

definition alloc_arg :: string where
  \<open>alloc_arg = ''(allocators_get(ALLOC_SYSTEM_PARSER), ''\<close>

text \<open>The six pairs of \<open>replacements\<close>, in the order of the list.\<close>

definition malloc_sizeof_pattern :: "atom list" where
  \<open>malloc_sizeof_pattern =
     lits ''malloc'' @ [Many Space, Lit CHR ''('', Many Space] @ lits ''sizeof''
     @ [Many Space, Lit CHR ''('', Many Space, GOpen, Many1 Word, GClose, Many Space,
        Lit CHR '')'', Many Space, Lit CHR '')'']\<close>

definition mem_new_template :: "rpart list" where
  \<open>mem_new_template = [RLit (''MEM_NEW'' @ alloc_arg), RGrp 1, RLit '')'']\<close>

definition malloc_array_pattern :: "atom list" where
  \<open>malloc_array_pattern =
     lits ''malloc'' @ [Many Space, Lit CHR ''('', Many Space, GOpen, Many1 Word, GClose,
        Many Space, Lit CHR ''*'', Many Space] @ lits ''sizeof''
     @ [Many Space, Lit CHR ''('', Many Space, GOpen, Many1 Word, Opt CHR ''*'', GClose,
        Many Space, Lit CHR '')'', Many Space, Lit CHR '')'']\<close>

definition mem_new_array_template :: "rpart list" where
  \<open>mem_new_array_template =
     [RLit (''MEM_NEW_ARRAY'' @ alloc_arg), RGrp 2, RLit '', '', RGrp 1, RLit '')'']\<close>

definition calloc_one_pattern :: "atom list" where
  \<open>calloc_one_pattern =
     lits ''calloc'' @ [Many Space, Lit CHR ''('', Many Space, Lit CHR ''1'', Many Space,
        Lit CHR '','', Many Space] @ lits ''sizeof''
     @ [Many Space, Lit CHR ''('', Many Space, GOpen, Many1 Word, GClose, Many Space,
        Lit CHR '')'', Many Space, Lit CHR '')'']\<close>

definition calloc_array_pattern :: "atom list" where
  \<open>calloc_array_pattern =
     lits ''calloc'' @ [Many Space, Lit CHR ''('', Many Space, GOpen, Many1 Word, GClose,
        Many Space, Lit CHR '','', Many Space] @ lits ''sizeof''
     @ [Many Space, Lit CHR ''('', Many Space, GOpen, Many1 Word, Opt CHR ''*'', GClose,
        Many Space, Lit CHR '')'', Many Space, Lit CHR '')'']\<close>

definition sizeof_ahead :: "atom list" where
  \<open>sizeof_ahead = [Many Space, Lit CHR ''*'', Many Space] @ lits ''sizeof''\<close>

definition malloc_generic_pattern :: "atom list" where
  \<open>malloc_generic_pattern =
     lits ''malloc'' @ [Many Space, Lit CHR ''('', Many Space, GOpen, Many1 NotRParen, GClose,
        Many Space, Lit CHR '')'', NotAhead sizeof_ahead]\<close>

definition mem_alloc_template :: "rpart list" where
  \<open>mem_alloc_template = [RLit (''MEM_ALLOC'' @ alloc_arg), RGrp 1, RLit '')'']\<close>

definition strdup_pattern :: "atom list" where
  \<open>strdup_pattern =
     lits ''strdup'' @ [Many Space, Lit CHR ''('', Many Space, GOpen, Many1 NotRParen, GClose,
        Many Space, Lit CHR '')'']\<close>

definition mem_strdup_template :: "rpart list" where
  \<open>mem_strdup_template = [RLit (''MEM_STRDUP'' @ alloc_arg), RGrp 1, RLit '')'']\<close>

definition replacements :: "(atom list \<times> rpart list) list" where
  "replacements =
     [(malloc_sizeof_pattern, mem_new_template),
      (malloc_array_pattern, mem_new_array_template),
      (calloc_one_pattern, mem_new_template),
      (calloc_array_pattern, mem_new_array_template),
      (malloc_generic_pattern, mem_alloc_template),
      (strdup_pattern, mem_strdup_template)]"

definition free_pattern :: "atom list" where
  \<open>free_pattern =
     lits ''free'' @ [Many Space, Lit CHR ''('', Many Space, GOpen, Many1 NotRParen, GClose,
        Many Space, Lit CHR '')'']\<close>

definition realloc_pattern :: "atom list" where
  \<open>realloc_pattern =
     lits ''realloc'' @ [Many Space, Lit CHR ''('', Many Space, GOpen, Many1 NotComma, GClose,
        Many Space, Lit CHR '','', Many Space, GOpen, Many1 NotRParen, GClose,
        Many Space, Lit CHR '')'']\<close>

text \<open>
  One printed diagnostic \<open>Line ~{line_num}: {match.group(0)}\<close>: the line number is
  \<open>content[:match.start()].count('\n') + 1\<close>.
\<close>

definition report :: "string \<Rightarrow> (nat \<times> string) list \<Rightarrow> (nat \<times> string) list" where
  "report content matches =
     map (\<lambda>(start, text). (count_char CHR ''\<newline>'' (take start content) + 1, text)) matches"

text \<open>
  The result of \<open>refactor_parser_memory\<close>: the returned text and the call sites it prints,
  each with its line number and its text.
\<close>

record refactored =
  returned :: string
  free_calls :: "(nat \<times> string) list"
  realloc_calls :: "(nat \<times> string) list"

definition refactor_parser_memory :: "string \<Rightarrow> refactored" where
  "refactor_parser_memory content0 =
     (let content = py_replace content0 anchor_include
                      (anchor_include @ ''\<newline>'' @ includes_text) 1;
          content = re_sub stdlib_pattern [] content;
          content = fold (\<lambda>(pattern, replacement) content. re_sub pattern replacement content)
                      replacements content;
          free_matches = re_finditer free_pattern content;
          realloc_matches = re_finditer realloc_pattern content
      in \<lparr>returned = content,
          free_calls = report content free_matches,
          realloc_calls = report content realloc_matches\<rparr>)"

text \<open>
  The text of the local \<open>helpers\<close>: a newline, the two function definitions, and a
  newline.
\<close>

definition helper_functions :: string where
  \<open>helper_functions =
     ''// Helper function to duplicate token lexeme using parser allocator\<newline>''
     @ ''static char* parser_strdup_lexeme(const char* lexeme, size_t length)\<newline>''
     @ ''{\<newline>''
     @ ''    Allocator* alloc = allocators_get(ALLOC_SYSTEM_PARSER);\<newline>''
     @ ''    char* result = MEM_ALLOC(alloc, length + 1);\<newline>''
     @ ''    if (result) {\<newline>''
     @ ''        memcpy(result, lexeme, length);\<newline>''
     @ ''        result[length] = '' @ [CHR 0x27] @ [CHR 0x5C] @ ''0'' @ [CHR 0x27] @ '';\<newline>''
     @ ''    }\<newline>''
     @ ''    return result;\<newline>''
     @ ''}\<newline>''
     @ ''\<newline>''
     @ ''// Helper to free string allocated by parser\<newline>''
     @ ''static void parser_free_string(char* str)\<newline>''
     @ ''{\<newline>''
     @ ''    if (str) {\<newline>''
     @ ''        Allocator* alloc = allocators_get(ALLOC_SYSTEM_PARSER);\<newline>''
     @ ''        MEM_FREE(alloc, str, strlen(str) + 1);\<newline>''
     @ ''    }\<newline>''
     @ ''}\<newline>''\<close>

definition helpers :: string where
  \<open>helpers = ''\<newline>'' @ helper_functions @ ''\<newline>''\<close>

definition add_allocator_helpers :: "string \<Rightarrow> string" where
  "add_allocator_helpers content =
     (let insert_pos = py_find content ''\<newline>\<newline>'' (py_find content ''#include'' 0)
      in if 0 < insert_pos
         then take (nat insert_pos) content @ ''\<newline>'' @ helpers @ drop (nat insert_pos) content
         else content)"

text \<open>
  The command line: with one argument the file is read, rewritten and written under the
  name \<open>filename.replace('.c', '_refactored.c')\<close>; otherwise the usage text is printed and
  the exit status is 1.  A file that cannot be read ends the run with an error.
\<close>

definition output_filename :: "string \<Rightarrow> string" where
  "output_filename filename = py_replace filename ''.c'' ''_refactored.c'' (- 1)"

definition rewrite_file :: "string \<Rightarrow> string" where
  "rewrite_file content0 = add_allocator_helpers (returned (refactor_parser_memory content0))"

datatype run = Usage_exit_1 | Read_error | Written string string

definition main :: "string list \<Rightarrow> (string \<Rightarrow> string option) \<Rightarrow> run" where
  "main argv files =
     (if length argv \<noteq> 2 then Usage_exit_1
      else (let filename = argv ! 1
            in case files filename of
                 None \<Rightarrow> Read_error
               | Some content0 \<Rightarrow> Written (output_filename filename) (rewrite_file content0)))"

text \<open>
  \<open>first_at sub s start j\<close>: the first occurrence of \<open>sub\<close> in \<open>s\<close> at or after the index
  \<open>start\<close> begins at the index \<open>j\<close>.  \<open>none_from sub s start\<close>: there is no occurrence at or
  after \<open>start\<close>.
\<close>

definition first_at :: "string \<Rightarrow> string \<Rightarrow> nat \<Rightarrow> nat \<Rightarrow> bool" where
  "first_at sub s start j \<longleftrightarrow>
     start \<le> j \<and> j \<le> length s \<and> prefix sub (drop j s)
     \<and> list_all (\<lambda>k. \<not> prefix sub (drop k s)) [start..<j]"

definition none_from :: "string \<Rightarrow> string \<Rightarrow> nat \<Rightarrow> bool" where
  "none_from sub s start \<longleftrightarrow> list_all (\<lambda>k. \<not> prefix sub (drop k s)) [start..<Suc (length s)]"

section \<open>The texts a pattern matches\<close>

text \<open>
  \<open>shape p w pos ms\<close>: the text \<open>w\<close> is made of the pieces the atoms of \<open>p\<close> take, in
  order, and \<open>ms\<close> are the positions the group boundaries get when \<open>w\<close> starts at the
  position \<open>pos\<close>.  A lookahead takes no text.
\<close>

fun shape :: "atom list \<Rightarrow> string \<Rightarrow> nat \<Rightarrow> nat list \<Rightarrow> bool" where
  "shape [] w pos ms \<longleftrightarrow> w = [] \<and> ms = []"
| "shape (Lit c # r) w pos ms \<longleftrightarrow> (\<exists>v. w = c # v \<and> shape r v (Suc pos) ms)"
| "shape (Many k # r) w pos ms \<longleftrightarrow>
     (\<exists>u v. w = u @ v \<and> list_all (in_cls k) u \<and> shape r v (pos + length u) ms)"
| "shape (Many1 k # r) w pos ms \<longleftrightarrow>
     (\<exists>u v. w = u @ v \<and> u \<noteq> [] \<and> list_all (in_cls k) u \<and> shape r v (pos + length u) ms)"
| "shape (Opt c # r) w pos ms \<longleftrightarrow>
     (\<exists>v. w = c # v \<and> shape r v (Suc pos) ms) \<or> shape r w pos ms"
| "shape (GOpen # r) w pos ms \<longleftrightarrow> (\<exists>ms'. ms = pos # ms' \<and> shape r w pos ms')"
| "shape (GClose # r) w pos ms \<longleftrightarrow> (\<exists>ms'. ms = pos # ms' \<and> shape r w pos ms')"
| "shape (NotAhead q # r) w pos ms \<longleftrightarrow> shape r w pos ms"

section \<open>The positions of a pattern as states\<close>

text \<open>
  What is left of a pattern after a character has been taken, used to decide which texts
  can continue a match that has begun.  \<open>nullable p\<close>: \<open>p\<close> can take the empty text;
  \<open>step c p\<close>: the patterns left after \<open>p\<close> took the character \<open>c\<close>; \<open>reach p\<close>: every
  pattern that can be left of \<open>p\<close>.  Lookaheads are ignored, which only adds matches.
\<close>

fun nullable :: "atom list \<Rightarrow> bool" where
  "nullable [] \<longleftrightarrow> True"
| "nullable (Lit c # r) \<longleftrightarrow> False"
| "nullable (Many k # r) \<longleftrightarrow> nullable r"
| "nullable (Many1 k # r) \<longleftrightarrow> False"
| "nullable (Opt c # r) \<longleftrightarrow> nullable r"
| "nullable (GOpen # r) \<longleftrightarrow> nullable r"
| "nullable (GClose # r) \<longleftrightarrow> nullable r"
| "nullable (NotAhead q # r) \<longleftrightarrow> nullable r"

fun step :: "char \<Rightarrow> atom list \<Rightarrow> atom list list" where
  "step c [] = []"
| "step c (Lit x # r) = (if c = x then [r] else [])"
| "step c (Many k # r) = (if in_cls k c then [Many k # r] else []) @ step c r"
| "step c (Many1 k # r) = (if in_cls k c then [Many k # r] else [])"
| "step c (Opt x # r) = (if c = x then [r] else []) @ step c r"
| "step c (GOpen # r) = step c r"
| "step c (GClose # r) = step c r"
| "step c (NotAhead q # r) = step c r"

definition next_states :: "char \<Rightarrow> atom list list \<Rightarrow> atom list list" where
  "next_states c Q = remdups (concat (map (step c) Q))"

fun reach :: "atom list \<Rightarrow> atom list list" where
  "reach [] = [[]]"
| "reach (a # r) = (a # r) # (case a of Many1 k \<Rightarrow> [Many k # r] | _ \<Rightarrow> []) @ reach r"

text \<open>
  \<open>clear_of Q t\<close>: no match that is in one of the states \<open>Q\<close> where the text \<open>t\<close> begins can
  end inside \<open>t\<close> or run beyond it.
\<close>

fun clear_of :: "atom list list \<Rightarrow> string \<Rightarrow> bool" where
  "clear_of Q [] \<longleftrightarrow> Q = []"
| "clear_of Q (c # t) \<longleftrightarrow>
     Q = [] \<or> (\<not> list_ex nullable (next_states c Q) \<and> clear_of (next_states c Q) t)"

text \<open>\<open>sh p w\<close>: the text \<open>w\<close> has the shape of \<open>p\<close>, whatever the positions.\<close>

definition sh :: "atom list \<Rightarrow> string \<Rightarrow> bool" where
  "sh p w \<longleftrightarrow> (\<exists>pos ms. shape p w pos ms)"

text \<open>
  The common form of the patterns for \<open>malloc(...)\<close>, \<open>strdup(...)\<close> and \<open>free(...)\<close>: a
  name, an opening parenthesis, one group of characters other than \<open>)\<close>, the closing
  parenthesis, and possibly a lookahead.
\<close>

definition call_pattern :: "string \<Rightarrow> atom list \<Rightarrow> atom list" where
  "call_pattern name la =
     lits name @ [Many Space, Lit CHR ''('', Many Space, GOpen, Many1 NotRParen, GClose,
        Many Space, Lit CHR '')''] @ la"

definition starts_with_lit :: "atom list \<Rightarrow> bool" where
  "starts_with_lit p = (case p of Lit x # q \<Rightarrow> True | _ \<Rightarrow> False)"

text \<open>
  \<open>turns f t t'\<close>: wherever the text \<open>t\<close> occurs in its argument, the result of \<open>f\<close> has the
  text \<open>t'\<close> in its place, between what \<open>f\<close> makes of the text before and behind.
\<close>

definition turns :: "(string \<Rightarrow> string) \<Rightarrow> string \<Rightarrow> string \<Rightarrow> bool" where
  "turns f t t' \<longleftrightarrow> (\<forall>a b. \<exists>a' b'. f (a @ t @ b) = a' @ t' @ b')"

section \<open>The texts of the examples\<close>

definition array_call :: string where
  "array_call = ''malloc(n * sizeof(Bar))''"

definition array_form :: string where
  "array_form = ''MEM_NEW_ARRAY(allocators_get(ALLOC_SYSTEM_PARSER), Bar, n)''"

definition free_call :: string where
  "free_call = ''free(ptr)''"

lemma fold_append_concat:
  "fold (\<lambda>i code. code @ f i) xs acc = acc @ concat (map f xs)"
  by (induction xs arbitrary: acc) simp_all


lemma generate_struct:
  "generate_large_module n =
     header_text n
     @ concat (map (\<lambda>i. helper_text i (i + 1)) (range (n div 2)))
     @ concat (map (\<lambda>i. exported_text i (i mod 10)) (range (n div 2)))
     @ footer_text n"
  by (simp add: generate_large_module_def Let_def fold_append_concat header_text_def
      footer_text_def helper_text_def exported_text_def)



lemma range_upto: "range k = [0..k - 1]"
proof -
  have "map int [0..<m] = [0..int m - 1]" for m
    by (induction m) (simp_all add: upto_rec2)
  from this [of "nat k"] show ?thesis
    by (cases "0 \<le> k") (simp_all add: range_def)
qed


lemma length_range: "0 \<le> k \<Longrightarrow> int (length (range k)) = k"
  by (simp add: range_def)




lemma digit_char_in: "d < 10 \<Longrightarrow> is_digit (digit_char d)"
  unfolding digit_char_def is_digit_def by (rule nth_mem) simp

lemma str_nat_chars: "list_all is_digit (str_nat n)"
proof (induction n rule: str_nat.induct)
  case (1 n)
  show ?case
  proof (cases "n < 10")
    case True
    have "str_nat n = [digit_char n]" using True by (subst str_nat.simps) simp
    then show ?thesis using digit_char_in [OF True] by simp
  next
    case False
    have e: "str_nat n = str_nat (n div 10) @ [digit_char (n mod 10)]"
      using False by (subst str_nat.simps) simp
    have "n mod 10 < 10" by simp
    from digit_char_in [OF this] 1 [OF False] show ?thesis
      unfolding e by simp
  qed
qed

lemma str_nat_nonempty: "str_nat n \<noteq> []"
  by (subst str_nat.simps) simp

lemma str_chars: "list_all (\<lambda>c. is_digit c \<or> c = CHR ''-'') (str i)"
proof -
  have "list_all (\<lambda>c. is_digit c \<or> c = CHR ''-'') (str_nat m)" for m
    using str_nat_chars [of m] by (simp add: list_all_iff)
  then show ?thesis by (simp add: str_def)
qed

lemma str_nonempty: "str i \<noteq> []"
  by (simp add: str_def str_nat_nonempty)


lemma prefix_sep: "x \<notin> set p \<Longrightarrow> prefix p (u @ x # v) \<longleftrightarrow> prefix p u"
  by (auto simp: prefix_append prefix_Cons)



lemma count_sub_sep:
  "x \<notin> set p \<Longrightarrow> count_sub p (u @ x # v) = count_sub p u + count_sub p v"
proof (induction u)
  case Nil
  then show ?case using prefix_sep [of x p "[]" v] by auto
next
  case (Cons c u)
  then show ?case using prefix_sep [of x p "c # u" v] by simp
qed




lemma count_sub_skip:
  "list_all (\<lambda>c. c \<notin> set p) ds \<Longrightarrow> p \<noteq> [] \<Longrightarrow> count_sub p (ds @ v) = count_sub p v"
proof (induction ds)
  case Nil
  then show ?case by simp
next
  case (Cons d ds)
  then show ?case using count_sub_sep [of d p "[]" "ds @ v"] by simp
qed

lemma count_sub_gap:
  assumes "list_all (\<lambda>c. c \<notin> set p) ds" "ds \<noteq> []" "p \<noteq> []"
  shows "count_sub p (u @ ds @ v) = count_sub p u + count_sub p v"
proof -
  obtain d ds' where ds: "ds = d # ds'" using assms(2) by (cases ds) auto
  with assms(1) have d: "d \<notin> set p" and r: "list_all (\<lambda>c. c \<notin> set p) ds'" by simp_all
  have "count_sub p (u @ d # (ds' @ v)) = count_sub p u + count_sub p (ds' @ v)"
    using d by (rule count_sub_sep)
  then show ?thesis using count_sub_skip [OF r assms(3), of v] ds by simp
qed

lemma count_sub_block:
  assumes "b \<noteq> []" "last b \<notin> set p" "p \<noteq> []"
  shows "count_sub p (b @ v) = count_sub p b + count_sub p v"
proof -
  obtain b' x where b: "b = b' @ [x]"
    using assms(1) by (metis append_butlast_last_id)
  with assms have x: "x \<notin> set p" by simp
  have "count_sub p (b' @ x # v) = count_sub p b' + count_sub p v"
    using x by (rule count_sub_sep)
  moreover have "count_sub p (b' @ x # []) = count_sub p b' + count_sub p []"
    using x by (rule count_sub_sep)
  ultimately show ?thesis using b assms(3) by simp
qed

lemma count_sub_concat:
  assumes "\<And>x. x \<in> set xs \<Longrightarrow> f x \<noteq> [] \<and> last (f x) \<notin> set p \<and> count_sub p (f x) = c"
    and "p \<noteq> []"
  shows "count_sub p (concat (map f xs) @ v) = length xs * c + count_sub p v"
  using assms(1)
proof (induction xs)
  case Nil
  then show ?case by simp
next
  case (Cons x xs)
  have "count_sub p (f x @ (concat (map f xs) @ v)) =
        count_sub p (f x) + count_sub p (concat (map f xs) @ v)"
    using Cons.prems [of x] assms(2) by (intro count_sub_block) simp_all
  with Cons show ?case by simp
qed

lemma str_avoids:
  assumes "list_all (\<lambda>c. \<not> is_digit c \<and> c \<noteq> CHR ''-'') p"
  shows "list_all (\<lambda>c. c \<notin> set p) (str i)"
  using str_chars [of i] assms unfolding list_all_iff by blast

lemma count_sub_str:
  assumes "list_all (\<lambda>c. \<not> is_digit c \<and> c \<noteq> CHR ''-'') p" "p \<noteq> []"
  shows "count_sub p (u @ str i @ v) = count_sub p u + count_sub p v"
  using count_sub_gap [OF str_avoids [OF assms(1)] str_nonempty assms(2)] .

lemma helper_pat_ok: "list_all (\<lambda>c. \<not> is_digit c \<and> c \<noteq> CHR ''-'') ''func privateHelper''"
  by (simp add: is_digit_def)

lemma export_pat_ok: "list_all (\<lambda>c. \<not> is_digit c \<and> c \<noteq> CHR ''-'') ''export func publicFunction''"
  by (simp add: is_digit_def)

lemma func_pat_ok: "list_all (\<lambda>c. \<not> is_digit c \<and> c \<noteq> CHR ''-'') ''func ''"
  by (simp add: is_digit_def)

lemmas count_str_helper = count_sub_str [OF helper_pat_ok, simplified]
lemmas count_str_export = count_sub_str [OF export_pat_ok, simplified]
lemmas count_str_func = count_sub_str [OF func_pat_ok, simplified]

lemma count_helper_in_helper: "count_sub ''func privateHelper'' (helper_text i m) = 1"
  unfolding helper_text_def
  by (simp only: count_str_helper count_str_helper [of "[]", simplified] append_assoc) simp


lemma count_helper_in_exported: "count_sub ''func privateHelper'' (exported_text i j) = 0"
  unfolding exported_text_def
  by (simp only: count_str_helper append_assoc) simp

lemma count_export_in_helper: "count_sub ''export func publicFunction'' (helper_text i m) = 0"
  unfolding helper_text_def
  by (simp only: count_str_export append_assoc) simp

lemma count_export_in_exported: "count_sub ''export func publicFunction'' (exported_text i j) = 1"
  unfolding exported_text_def
  by (simp only: count_str_export append_assoc) simp

lemma count_in_header:
  "count_sub ''func privateHelper'' (header_text n) = 0"
  "count_sub ''export func publicFunction'' (header_text n) = 0"
  "count_sub ''func '' (header_text n) = 0"
  unfolding header_text_def
  by (simp only: count_str_helper count_str_export count_str_func append_assoc, simp)+

lemma count_in_footer:
  "count_sub ''func privateHelper'' (footer_text n) = 0"
  "count_sub ''export func publicFunction'' (footer_text n) = 0"
  "count_sub ''func '' (footer_text n) = 0"
  unfolding footer_text_def
  by (simp only: count_str_helper count_str_export count_str_func append_assoc, simp)+

lemma block_ends:
  "helper_text i m \<noteq> []" "last (helper_text i m) = CHR ''\<newline>''"
  "exported_text i j \<noteq> []" "last (exported_text i j) = CHR ''\<newline>''"
  "header_text n \<noteq> []" "last (header_text n) = CHR ''\<newline>''"
  by (simp_all add: helper_text_def exported_text_def header_text_def)

lemma count_helper_generate:
  "count_sub ''func privateHelper'' (generate_large_module n) = length (range (n div 2))"
proof -
  let ?p = "''func privateHelper''"
  let ?k = "range (n div 2)"
  let ?H = "concat (map (\<lambda>i. helper_text i (i + 1)) ?k)"
  let ?E = "concat (map (\<lambda>i. exported_text i (i mod 10)) ?k)"
  have 1: "count_sub ?p (header_text n @ v) = count_sub ?p v" for v
    using count_sub_block [of "header_text n" ?p v] by (simp add: block_ends count_in_header)
  have 2: "count_sub ?p (?H @ v) = length ?k * 1 + count_sub ?p v" for v
    by (rule count_sub_concat) (simp_all add: block_ends count_helper_in_helper)
  have 3: "count_sub ?p (?E @ v) = length ?k * 0 + count_sub ?p v" for v
    by (rule count_sub_concat) (simp_all add: block_ends count_helper_in_exported)
  show ?thesis
    unfolding generate_struct by (simp add: 1 2 3 count_in_footer)
qed

lemma count_export_generate:
  "count_sub ''export func publicFunction'' (generate_large_module n) = length (range (n div 2))"
proof -
  let ?p = "''export func publicFunction''"
  let ?k = "range (n div 2)"
  let ?H = "concat (map (\<lambda>i. helper_text i (i + 1)) ?k)"
  let ?E = "concat (map (\<lambda>i. exported_text i (i mod 10)) ?k)"
  have 1: "count_sub ?p (header_text n @ v) = count_sub ?p v" for v
    using count_sub_block [of "header_text n" ?p v] by (simp add: block_ends count_in_header)
  have 2: "count_sub ?p (?H @ v) = length ?k * 0 + count_sub ?p v" for v
    by (rule count_sub_concat) (simp_all add: block_ends count_export_in_helper)
  have 3: "count_sub ?p (?E @ v) = length ?k * 1 + count_sub ?p v" for v
    by (rule count_sub_concat) (simp_all add: block_ends count_export_in_exported)
  show ?thesis
    unfolding generate_struct by (simp add: 1 2 3 count_in_footer)
qed

lemma generate_small:
  assumes "n = 0 \<or> n = 1"
  shows "generate_large_module n = header_text n @ footer_text n"
    and "count_sub ''func '' (generate_large_module n) = 0"
proof -
  have r: "range (n div 2) = []" using assms by (auto simp: range_def)
  show g: "generate_large_module n = header_text n @ footer_text n"
    unfolding generate_struct r by simp
  show "count_sub ''func '' (generate_large_module n) = 0"
    unfolding g using count_sub_block [of "header_text n" "''func ''" "footer_text n"]
    by (simp add: block_ends count_in_header count_in_footer)
qed

text \<open>
  Claim C5.  For a non-negative count \<open>n\<close> the generated text is the header, then the
  private helpers with the indices \<open>0, ..., n div 2 - 1\<close> in order (helper \<open>i\<close> multiplying
  by \<open>i + 1\<close>), then as many exported functions, then the footer; the text
  \<open>func privateHelper\<close> that opens a helper definition and the text
  \<open>export func publicFunction\<close> that opens an exported definition each occur exactly
  \<open>n div 2\<close> times.  For the counts 0 and 1 the result is the header followed by the
  footer, and no function definition (\<open>func\<close> followed by a blank) occurs in it.
\<close>

theorem generate_function_counts:
  "0 \<le> n \<Longrightarrow>
     generate_large_module n =
       header_text n
       @ concat (map (\<lambda>i. helper_text i (i + 1)) [0..n div 2 - 1])
       @ concat (map (\<lambda>i. exported_text i (i mod 10)) [0..n div 2 - 1])
       @ footer_text n
     \<and> int (length [0..n div 2 - 1]) = n div 2
     \<and> int (count_sub ''func privateHelper'' (generate_large_module n)) = n div 2
     \<and> int (count_sub ''export func publicFunction'' (generate_large_module n)) = n div 2
     \<and> generate_large_module 0 = header_text 0 @ footer_text 0
     \<and> generate_large_module 1 = header_text 1 @ footer_text 1
     \<and> count_sub ''func '' (generate_large_module 0) = 0
     \<and> count_sub ''func '' (generate_large_module 1) = 0"
proof -
  assume n: "0 \<le> n"
  have l: "int (length (range (n div 2))) = n div 2"
    using n by (intro length_range) simp
  show ?thesis
    using generate_struct [of n] l count_helper_generate [of n] count_export_generate [of n]
      generate_small [of 0] generate_small [of 1]
    by (simp add: range_upto)
qed

theorem generate_function_counts_witness:
  "(0::int) \<le> 5
   \<and> int (count_sub ''func privateHelper'' (generate_large_module 5)) = 5 div 2
   \<and> int (count_sub ''export func publicFunction'' (generate_large_module 5)) = 5 div 2"
proof -
  have h: "(0::int) \<le> 5" by simp
  from generate_function_counts [OF h] h show ?thesis by blast
qed

lemma contains_here: "contains p (p @ v)"
  by (cases p; cases v) simp_all

lemma contains_append: "contains p (u @ p @ v)"
proof (induction u)
  case Nil
  show ?case using contains_here by simp
next
  case (Cons c u)
  then show ?case by simp
qed

lemma contains_concat_map:
  assumes "i \<in> set xs"
  shows "contains (f i) (u @ concat (map f xs) @ v)"
proof -
  from assms obtain as bs where "xs = as @ i # bs" by (auto dest: split_list)
  then have "u @ concat (map f xs) @ v
           = (u @ concat (map f as)) @ f i @ (concat (map f bs) @ v)" by simp
  then show ?thesis using contains_append by metis
qed

text \<open>
  Claim C6.  For \<open>n \<ge> 20\<close> the exported function with index \<open>i\<close>, for every \<open>i\<close> from 0 to
  \<open>n div 2 - 1\<close>, is generated with a call of the helper \<open>i mod 10\<close>, that index lies
  between 0 and 9, and the definition occurs in the generated text.
\<close>

theorem exported_helper_reference:
  "20 \<le> n \<Longrightarrow>
     generate_large_module n =
       header_text n
       @ concat (map (\<lambda>i. helper_text i (i + 1)) [0..n div 2 - 1])
       @ concat (map (\<lambda>i. exported_text i (i mod 10)) [0..n div 2 - 1])
       @ footer_text n
     \<and> (\<forall>i \<in> set [0..n div 2 - 1].
           0 \<le> i mod 10 \<and> i mod 10 \<le> 9
           \<and> contains (exported_text i (i mod 10)) (generate_large_module n))"
proof -
  let ?H = "concat (map (\<lambda>i. helper_text i (i + 1)) [0..n div 2 - 1])"
  have g: "generate_large_module n =
       header_text n @ ?H
       @ concat (map (\<lambda>i. exported_text i (i mod 10)) [0..n div 2 - 1])
       @ footer_text n"
    using generate_struct [of n] by (simp add: range_upto)
  have "contains (exported_text i (i mod 10)) (generate_large_module n)"
    if "i \<in> set [0..n div 2 - 1]" for i
    using contains_concat_map [OF that, of "\<lambda>i. exported_text i (i mod 10)"
        "header_text n @ ?H" "footer_text n"]
    unfolding g by simp
  moreover have "0 \<le> i mod 10 \<and> i mod 10 \<le> 9" for i :: int
    by presburger
  ultimately show ?thesis using g by blast
qed

theorem exported_helper_reference_witness:
  "(20::int) \<le> 24 \<and> (7::int) \<in> set [0..24 div 2 - 1]
   \<and> contains (exported_text 7 (7 mod 10)) (generate_large_module 24)"
proof -
  have h: "(20::int) \<le> 24" by simp
  have m: "(7::int) \<in> set [0..24 div 2 - 1]" by simp
  from exported_helper_reference [OF h] m h show ?thesis by blast
qed

lemma find_at_first:
  "first_at sub s 0 k \<Longrightarrow> find_at sub s off = int (off + k)"
proof (induction s arbitrary: off k)
  case Nil
  then show ?case by (simp add: first_at_def)
next
  case (Cons c cs)
  show ?case
  proof (cases k)
    case 0
    with Cons.prems show ?thesis by (simp add: first_at_def)
  next
    case (Suc k')
    from Cons.prems Suc have np: "\<not> prefix sub (c # cs)"
      by (simp add: first_at_def upt_conv_Cons del: upt_Suc)
    have "list_all (\<lambda>j. \<not> prefix sub (drop j cs)) [0..<k']"
      using Cons.prems Suc unfolding first_at_def list_all_iff
      by (metis Suc_less_eq atLeastLessThan_iff drop_Suc_Cons set_upt zero_le)
    with Cons.prems Suc have "first_at sub cs 0 k'"
      by (simp add: first_at_def)
    from Cons.IH [OF this, of "Suc off"] np Suc show ?thesis by simp
  qed
qed

lemma find_at_none:
  "none_from sub s 0 \<Longrightarrow> find_at sub s off = - 1"
proof (induction s arbitrary: off)
  case Nil
  then show ?case by (simp add: none_from_def)
next
  case (Cons c cs)
  from Cons.prems have np: "\<not> prefix sub (c # cs)"
    by (simp add: none_from_def upt_conv_Cons del: upt_Suc)
  have "list_all (\<lambda>j. \<not> prefix sub (drop j cs)) [0..<Suc (length cs)]"
    using Cons.prems unfolding none_from_def list_all_iff
    by (metis Suc_less_eq atLeastLessThan_iff drop_Suc_Cons set_upt zero_le length_Cons)
  then have "none_from sub cs 0" by (simp add: none_from_def)
  from Cons.IH [OF this] np show ?case by simp
qed

lemma first_at_drop:
  assumes "first_at sub s i j"
  shows "first_at sub (drop i s) 0 (j - i)"
proof -
  from assms have ij: "i \<le> j" "j \<le> length s" by (simp_all add: first_at_def)
  have "\<not> prefix sub (drop k (drop i s))" if "k < j - i" for k
  proof -
    from that have "i + k \<in> set [i..<j]" by simp
    with assms have "\<not> prefix sub (drop (i + k) s)"
      unfolding first_at_def list_all_iff by blast
    then show ?thesis by (simp add: add.commute)
  qed
  then show ?thesis using assms ij by (simp add: first_at_def list_all_iff)
qed

lemma none_from_drop:
  assumes "none_from sub s i" "i \<le> length s"
  shows "none_from sub (drop i s) 0"
proof -
  have "\<not> prefix sub (drop k (drop i s))" if "k < Suc (length s - i)" for k
  proof -
    from that assms(2) have "i + k \<in> set [i..<Suc (length s)]" by auto
    with assms have "\<not> prefix sub (drop (i + k) s)"
      unfolding none_from_def list_all_iff by blast
    then show ?thesis by (simp add: add.commute)
  qed
  then show ?thesis
    unfolding none_from_def list_all_iff by (simp del: upt_Suc)
qed

lemma py_find_first:
  "first_at sub s i j \<Longrightarrow> py_find s sub (int i) = int j"
  using find_at_first [OF first_at_drop, of sub s i j i]
  by (simp add: py_find_def first_at_def)

lemma py_find_none:
  "none_from sub s i \<Longrightarrow> py_find s sub (int i) = - 1"
  using find_at_none [OF none_from_drop, of sub s i i]
  by (cases "i \<le> length s") (simp_all add: py_find_def)

lemma py_find_minus_one:
  "py_find s ''\<newline>\<newline>'' (- 1) = - 1"
proof (cases s rule: rev_cases)
  case Nil
  then show ?thesis by (simp add: py_find_def)
next
  case (snoc ys y)
  then show ?thesis by (simp add: py_find_def Let_def nat_add_distrib)
qed


lemma helpers_split: "helpers = ''\<newline>'' @ helper_functions @ ''\<newline>''"
  by (simp add: helpers_def)

lemma prefix_take_drop:
  "prefix sub (drop j s) \<Longrightarrow> take (j + length sub) s = take j s @ sub"
  by (metis append_eq_conv_conj prefix_def take_add)

lemma add_helpers_found:
  assumes i: "first_at ''#include'' s 0 i" and j: "first_at ''\<newline>\<newline>'' s i j"
  shows "add_allocator_helpers s =
           take (j + 2) s @ helper_functions @ ''\<newline>\<newline>\<newline>'' @ drop (j + 2) s"
proof -
  have f1: "py_find s ''#include'' 0 = int i"
    using py_find_first [OF i] by simp
  have f2: "py_find s ''\<newline>\<newline>'' (int i) = int j"
    using py_find_first [OF j] .
  from i have pi: "prefix ''#include'' (drop i s)" by (simp add: first_at_def)
  from j have pj: "prefix ''\<newline>\<newline>'' (drop j s)" and ij: "i \<le> j" by (simp_all add: first_at_def)
  have "j \<noteq> 0"
  proof
    assume "j = 0"
    with ij pi pj show False by (cases s) (auto simp: prefix_Cons)
  qed
  then have pos: "0 < int j" by simp
  have t: "take (j + 2) s = take j s @ ''\<newline>\<newline>''"
    using prefix_take_drop [OF pj] by simp
  have d: "drop j s = ''\<newline>\<newline>'' @ drop (j + 2) s"
    by (metis append_take_drop_id t append_assoc same_append_eq take_add add.commute drop_drop)
  have "add_allocator_helpers s = take j s @ ''\<newline>'' @ helpers @ drop j s"
    using pos by (simp add: add_allocator_helpers_def f1 f2)
  also have "\<dots> = take j s @ ''\<newline>'' @ (''\<newline>'' @ helper_functions @ ''\<newline>'')
                    @ (''\<newline>\<newline>'' @ drop (j + 2) s)"
    using helpers_split d by simp
  also have "\<dots> = take (j + 2) s @ helper_functions @ ''\<newline>\<newline>\<newline>'' @ drop (j + 2) s"
    unfolding t by simp
  finally show ?thesis .
qed

lemma add_helpers_no_blank:
  assumes i: "first_at ''#include'' s 0 i" and j: "none_from ''\<newline>\<newline>'' s i"
  shows "add_allocator_helpers s = s"
  using py_find_first [OF i] py_find_none [OF j]
  by (simp add: add_allocator_helpers_def)

lemma add_helpers_no_include:
  assumes "none_from ''#include'' s 0"
  shows "add_allocator_helpers s = s"
  using py_find_none [OF assms] py_find_minus_one
  by (simp add: add_allocator_helpers_def)

lemma none_from_Cons:
  "none_from sub (c # cs) 0 \<longleftrightarrow> \<not> prefix sub (c # cs) \<and> none_from sub cs 0"
proof -
  have "(\<forall>k < Suc (Suc (length cs)). \<not> prefix sub (drop k (c # cs)))
        \<longleftrightarrow> (\<not> prefix sub (c # cs) \<and> (\<forall>k < Suc (length cs). \<not> prefix sub (drop k cs)))"
    (is "?L \<longleftrightarrow> ?R")
  proof
    assume l: ?L
    have "\<not> prefix sub (drop k cs)" if "k < Suc (length cs)" for k
      using l [rule_format, of "Suc k"] that by simp
    moreover have "\<not> prefix sub (c # cs)" using l [rule_format, of 0] by simp
    ultimately show ?R by blast
  next
    assume r: ?R
    show ?L
    proof (intro allI impI)
      fix k assume "k < Suc (Suc (length cs))"
      then show "\<not> prefix sub (drop k (c # cs))" using r by (cases k) simp_all
    qed
  qed
  then show ?thesis
    unfolding none_from_def list_all_iff by (simp add: Ball_def del: upt_Suc)
qed

lemma none_from_contains: "none_from sub s 0 \<longleftrightarrow> \<not> contains sub s"
proof (induction s)
  case Nil
  show ?case by (simp add: none_from_def)
next
  case (Cons c cs)
  then show ?case by (simp add: none_from_Cons)
qed

text \<open>
  Claim C3.  When the first \<open>#include\<close> of the text begins at the index \<open>i\<close> and the first
  empty line at or behind it is the pair of newlines at the index \<open>j\<close>, the result is the
  text up to and including that empty line, then the two helper function definitions
  (followed by three newlines), then the rest of the text.  When there is no pair of
  newlines at or behind the first \<open>#include\<close>, the text is returned unchanged.
\<close>

theorem add_allocator_helpers_after_blank_line:
  "(first_at ''#include'' s 0 i \<and> first_at ''\<newline>\<newline>'' s i j \<longrightarrow>
      take (j + 2) s = take j s @ ''\<newline>\<newline>''
      \<and> add_allocator_helpers s =
          take (j + 2) s @ helper_functions @ ''\<newline>\<newline>\<newline>'' @ drop (j + 2) s)
   \<and> (first_at ''#include'' s 0 i \<and> none_from ''\<newline>\<newline>'' s i \<longrightarrow>
      add_allocator_helpers s = s)"
proof (intro conjI impI)
  assume a: "first_at ''#include'' s 0 i \<and> first_at ''\<newline>\<newline>'' s i j"
  then have "prefix ''\<newline>\<newline>'' (drop j s)" by (simp add: first_at_def)
  from prefix_take_drop [OF this] show "take (j + 2) s = take j s @ ''\<newline>\<newline>''" by simp
  from a show "add_allocator_helpers s =
          take (j + 2) s @ helper_functions @ ''\<newline>\<newline>\<newline>'' @ drop (j + 2) s"
    using add_helpers_found by blast
next
  assume "first_at ''#include'' s 0 i \<and> none_from ''\<newline>\<newline>'' s i"
  then show "add_allocator_helpers s = s" using add_helpers_no_blank by blast
qed

theorem add_allocator_helpers_after_blank_line_witness:
  \<open>first_at ''#include'' ''int a;\<newline>#include "p.h"\<newline>\<newline>int x;'' 0 7
   \<and> first_at ''\<newline>\<newline>'' ''int a;\<newline>#include "p.h"\<newline>\<newline>int x;'' 7 21
   \<and> add_allocator_helpers ''int a;\<newline>#include "p.h"\<newline>\<newline>int x;'' =
       ''int a;\<newline>#include "p.h"\<newline>\<newline>'' @ helper_functions @ ''\<newline>\<newline>\<newline>'' @ ''int x;''
   \<and> first_at ''#include'' ''#include "p.h"\<newline>int x;'' 0 0
   \<and> none_from ''\<newline>\<newline>'' ''#include "p.h"\<newline>int x;'' 0
   \<and> add_allocator_helpers ''#include "p.h"\<newline>int x;'' = ''#include "p.h"\<newline>int x;''\<close>
proof -
  have 1: \<open>first_at ''#include'' ''int a;\<newline>#include "p.h"\<newline>\<newline>int x;'' 0 7\<close>
    by code_simp
  have 2: \<open>first_at ''\<newline>\<newline>'' ''int a;\<newline>#include "p.h"\<newline>\<newline>int x;'' 7 21\<close>
    by code_simp
  have 3: \<open>first_at ''#include'' ''#include "p.h"\<newline>int x;'' 0 0\<close>
    by code_simp
  have 4: \<open>none_from ''\<newline>\<newline>'' ''#include "p.h"\<newline>int x;'' 0\<close>
    by code_simp
  from add_allocator_helpers_after_blank_line
         [of \<open>''int a;\<newline>#include "p.h"\<newline>\<newline>int x;''\<close> 7 21] 1 2
  have \<open>add_allocator_helpers ''int a;\<newline>#include "p.h"\<newline>\<newline>int x;'' =
       ''int a;\<newline>#include "p.h"\<newline>\<newline>'' @ helper_functions @ ''\<newline>\<newline>\<newline>'' @ ''int x;''\<close>
    by simp
  moreover from add_allocator_helpers_after_blank_line
         [of \<open>''#include "p.h"\<newline>int x;''\<close> 0 j] 3 4
  have \<open>add_allocator_helpers ''#include "p.h"\<newline>int x;'' = ''#include "p.h"\<newline>int x;''\<close>
    by blast
  ultimately show ?thesis using 1 2 3 4 by blast
qed

text \<open>
  Claim C10.  A text in which \<open>#include\<close> does not occur is returned unchanged by
  \<open>add_allocator_helpers\<close>: the search for the pair of newlines then starts at the index
  \<open>-1\<close>, that is at the last character, and finds nothing.
\<close>

theorem add_allocator_helpers_without_include:
  "\<not> contains ''#include'' s \<Longrightarrow> add_allocator_helpers s = s"
  using add_helpers_no_include [of s] by (simp add: none_from_contains)

theorem add_allocator_helpers_without_include_witness:
  \<open>\<not> contains ''#include'' ''int x;\<newline>\<newline>int y;\<newline>''
   \<and> add_allocator_helpers ''int x;\<newline>\<newline>int y;\<newline>'' = ''int x;\<newline>\<newline>int y;\<newline>''\<close>
proof -
  have h: \<open>\<not> contains ''#include'' ''int x;\<newline>\<newline>int y;\<newline>''\<close> by code_simp
  from add_allocator_helpers_without_include [OF h] h show ?thesis by blast
qed

text \<open>
  Claim C2.  The output name is \<open>filename.replace('.c', '_refactored.c')\<close>, which replaces
  every occurrence of \<open>.c\<close> in the name, not only the extension at its end: for the input
  file \<open>my.code/parser.c\<close> the name of the directory is rewritten too.
\<close>

theorem output_filename_replaces_every_dot_c:
  "output_filename ''my.code/parser.c'' = ''my_refactored.code/parser_refactored.c''"
  by code_simp

text \<open>
  Claim C9.  The patterns are not anchored at a word boundary: in \<open>xmalloc(n)\<close> the
  part \<open>malloc(n)\<close> is rewritten, and for \<open>my_free(p)\<close> the call \<open>free(p)\<close> is reported as
  a deallocation call site (on line 1).
\<close>

theorem patterns_match_inside_identifiers:
  \<open>returned (refactor_parser_memory ''xmalloc(n)'')
     = ''xMEM_ALLOC(allocators_get(ALLOC_SYSTEM_PARSER), n)''
   \<and> free_calls (refactor_parser_memory ''my_free(p)'') = [(1, ''free(p)'')]\<close>
  by code_simp

lemma first_down_Some:
  "first_down f lo hi = Some r \<Longrightarrow> \<exists>j. lo \<le> j \<and> j \<le> hi \<and> f j = Some r"
proof (induction hi)
  case 0
  then show ?case by (auto split: if_splits)
next
  case (Suc h)
  show ?case
  proof (cases "f (Suc h)")
    case None
    with Suc.prems have "first_down f lo h = Some r" by (simp split: if_splits)
    from Suc.IH [OF this] show ?thesis using le_SucI by blast
  next
    case (Some a)
    with Suc.prems have "lo \<le> Suc h" "a = r" by (simp_all split: if_splits)
    with Some show ?thesis by blast
  qed
qed

lemma first_down_top:
  "f hi = Some r \<Longrightarrow> lo \<le> hi \<Longrightarrow> first_down f lo hi = Some r"
  by (cases hi) auto

lemma first_down_None:
  "(\<And>j. lo \<le> j \<Longrightarrow> j \<le> hi \<Longrightarrow> f j = None) \<Longrightarrow> first_down f lo hi = None"
proof (induction hi)
  case 0
  then show ?case by simp
next
  case (Suc h)
  have "first_down f lo h = None" using Suc.prems by (intro Suc.IH) simp
  moreover have "\<not> Suc h < lo \<Longrightarrow> f (Suc h) = None" using Suc.prems by simp
  ultimately show ?case by simp
qed

lemma takeWhile_all: "j \<le> length (takeWhile P s) \<Longrightarrow> list_all P (take j s)"
proof (induction s arbitrary: j)
  case Nil
  then show ?case by simp
next
  case (Cons x xs)
  then show ?case by (cases j) (auto split: if_splits)
qed

lemma shape_ManyI:
  "list_all (in_cls k) u \<Longrightarrow> shape r v (pos + length u) ms \<Longrightarrow> shape (Many k # r) (u @ v) pos ms"
  by auto

lemma shape_Many1I:
  "u \<noteq> [] \<Longrightarrow> list_all (in_cls k) u \<Longrightarrow> shape r v (pos + length u) ms \<Longrightarrow>
   shape (Many1 k # r) (u @ v) pos ms"
  by auto

lemma mt_shape:
  "mt p s pos caps = Some (e, caps') \<Longrightarrow>
     \<exists>n ms. e = pos + n \<and> n \<le> length s \<and> caps' = caps @ ms \<and> shape p (take n s) pos ms"
proof (induction p s pos caps arbitrary: e caps' rule: mt.induct)
  case (1 s pos caps)
  then show ?case by auto
next
  case (2 c r s pos caps)
  then obtain xs where s: "s = c # xs" and m: "mt r xs (Suc pos) caps = Some (e, caps')"
    by (auto split: list.splits if_splits)
  from 2(1) [OF s _ m] s obtain n ms where
    "e = Suc pos + n" "n \<le> length xs" "caps' = caps @ ms" "shape r (take n xs) (Suc pos) ms"
    by auto
  then show ?case using s by (intro exI [of _ "Suc n"] exI [of _ ms]) simp
next
  case (3 k r s pos caps)
  let ?h = "length (takeWhile (in_cls k) s)"
  from 3(2) obtain j where j: "j \<le> ?h" and m: "mt r (drop j s) (pos + j) caps = Some (e, caps')"
    by (auto dest: first_down_Some)
  from 3(1) [OF m] obtain n ms where
    n: "e = pos + j + n" "n \<le> length (drop j s)" "caps' = caps @ ms"
       "shape r (take n (drop j s)) (pos + j) ms" by auto
  have jl: "j \<le> length s" using j length_takeWhile_le [of "in_cls k" s] by linarith
  have t: "take (j + n) s = take j s @ take n (drop j s)" by (simp add: take_add)
  have a: "list_all (in_cls k) (take j s)" using j by (rule takeWhile_all)
  have "shape (Many k # r) (take j s @ take n (drop j s)) pos ms"
    using a n(4) jl by (intro shape_ManyI) simp_all
  then show ?case
    using n jl t by (intro exI [of _ "j + n"] exI [of _ ms]) simp
next
  case (4 k r s pos caps)
  let ?h = "length (takeWhile (in_cls k) s)"
  from 4(2) obtain j where j: "j \<le> ?h" "1 \<le> j" and m: "mt r (drop j s) (pos + j) caps = Some (e, caps')"
    by (auto dest: first_down_Some)
  from 4(1) [OF m] obtain n ms where
    n: "e = pos + j + n" "n \<le> length (drop j s)" "caps' = caps @ ms"
       "shape r (take n (drop j s)) (pos + j) ms" by auto
  have jl: "j \<le> length s" using j length_takeWhile_le [of "in_cls k" s] by linarith
  have t: "take (j + n) s = take j s @ take n (drop j s)" by (simp add: take_add)
  have a: "list_all (in_cls k) (take j s)" using j(1) by (rule takeWhile_all)
  have ne: "take j s \<noteq> []" using j jl by auto
  have "shape (Many1 k # r) (take j s @ take n (drop j s)) pos ms"
    using ne a n(4) jl by (intro shape_Many1I) simp_all
  then show ?case
    using n jl t by (intro exI [of _ "j + n"] exI [of _ ms]) simp
next
  case (5 c r s pos caps)
  show ?case
  proof (cases "case s of [] \<Rightarrow> None | x # xs \<Rightarrow> if x = c then mt r xs (Suc pos) caps else None")
    case None
    with 5(3) have m: "mt r s pos caps = Some (e, caps')" by simp
    from 5(2) [OF None m] show ?thesis by auto
  next
    case (Some res)
    with 5(3) have res: "res = (e, caps')" by simp
    from Some obtain xs where s: "s = c # xs" and m: "mt r xs (Suc pos) caps = Some (e, caps')"
      unfolding res by (auto split: list.splits if_splits)
    from 5(1) [OF s _ m] s obtain n ms where
      "e = Suc pos + n" "n \<le> length xs" "caps' = caps @ ms" "shape r (take n xs) (Suc pos) ms"
      by auto
    then show ?thesis using s by (intro exI [of _ "Suc n"] exI [of _ ms]) simp
  qed
next
  case (6 r s pos caps)
  from 6(1) [OF 6(2) [simplified]] show ?case by auto
next
  case (7 r s pos caps)
  from 7(1) [OF 7(2) [simplified]] show ?case by auto
next
  case (8 q r s pos caps)
  then show ?case by (auto split: option.splits)
qed

lemma shape_nullable: "shape p [] pos ms \<Longrightarrow> nullable p"
proof (induction p arbitrary: pos ms)
  case Nil
  then show ?case by simp
next
  case (Cons a p)
  then show ?case by (cases a) auto
qed

lemma shape_step:
  "shape p (c # w) pos ms \<Longrightarrow> \<exists>q \<in> set (step c p). sh q w"
proof (induction p arbitrary: pos ms)
  case Nil
  then show ?case by simp
next
  case (Cons a p)
  show ?case
  proof (cases a)
    case (Lit x)
    with Cons.prems show ?thesis by (auto simp: sh_def)
  next
    case (Many k)
    with Cons.prems obtain u v where uv: "c # w = u @ v" "list_all (in_cls k) u"
      "shape p v (pos + length u) ms" by auto
    show ?thesis
    proof (cases u)
      case Nil
      with uv have "shape p (c # w) pos ms" by simp
      from Cons.IH [OF this] Many show ?thesis by auto
    next
      case (Cons b u')
      with uv have "b = c" "w = u' @ v" "in_cls k c" "list_all (in_cls k) u'" by auto
      moreover from uv Cons have "shape p v (Suc pos + length u') ms" by simp
      ultimately have "shape (Many k # p) w (Suc pos) ms" by auto
      then have "sh (Many k # p) w" unfolding sh_def by blast
      with \<open>in_cls k c\<close> Many show ?thesis by (simp del: shape.simps)
    qed
  next
    case (Many1 k)
    with Cons.prems obtain u v where uv: "c # w = u @ v" "u \<noteq> []" "list_all (in_cls k) u"
      "shape p v (pos + length u) ms" by auto
    then obtain u' where u: "u = c # u'" by (cases u) auto
    with uv have "w = u' @ v" "in_cls k c" "list_all (in_cls k) u'" by auto
    moreover from uv u have "shape p v (Suc pos + length u') ms" by simp
    ultimately have "shape (Many k # p) w (Suc pos) ms" by auto
    then have "sh (Many k # p) w" unfolding sh_def by blast
    with \<open>in_cls k c\<close> Many1 show ?thesis by (simp del: shape.simps)
  next
    case (Opt x)
    with Cons.prems consider "c = x" "shape p w (Suc pos) ms" | "shape p (c # w) pos ms"
      by auto
    then show ?thesis
    proof cases
      case 1
      then have "sh p w" unfolding sh_def by blast
      with 1 Opt show ?thesis by simp
    next
      case 2
      from Cons.IH [OF this] Opt show ?thesis by auto
    qed
  next
    case GOpen
    with Cons.prems Cons.IH show ?thesis by auto
  next
    case GClose
    with Cons.prems Cons.IH show ?thesis by auto
  next
    case (NotAhead q)
    with Cons.prems Cons.IH show ?thesis by auto
  qed
qed

lemma sh_next:
  assumes "sh q (c # w)" "q \<in> set Q"
  shows "\<exists>q' \<in> set (next_states c Q). sh q' w"
proof -
  from assms(1) obtain pos ms where "shape q (c # w) pos ms" by (auto simp: sh_def)
  from shape_step [OF this] obtain q' where "q' \<in> set (step c q)" "sh q' w" by blast
  with assms(2) show ?thesis by (auto simp: next_states_def)
qed

lemma reach_self: "p \<in> set (reach p)"
  by (cases p) simp_all

lemma reach_trans: "q \<in> set (reach p) \<Longrightarrow> set (reach q) \<subseteq> set (reach p)"
proof (induction p)
  case Nil
  then show ?case by simp
next
  case (Cons a p)
  from Cons.prems consider "q = a # p" | "\<exists>k. a = Many1 k \<and> q = Many k # p" | "q \<in> set (reach p)"
    by (auto split: atom.splits)
  then show ?case
  proof cases
    case 1
    then show ?thesis by simp
  next
    case 2
    then show ?thesis by auto
  next
    case 3
    from Cons.IH [OF this] show ?thesis by auto
  qed
qed

lemma step_reach: "set (step c p) \<subseteq> set (reach p)"
proof (induction p)
  case Nil
  then show ?case by simp
next
  case (Cons a p)
  then show ?case using reach_self [of p] by (cases a) (auto split: if_splits)
qed

lemma clear_of_sound:
  "clear_of Q t \<Longrightarrow> q \<in> set Q \<Longrightarrow> sh q (take m (t @ b)) \<Longrightarrow> 0 < m \<Longrightarrow> False"
proof (induction t arbitrary: Q q m)
  case Nil
  then show ?case by simp
next
  case (Cons c t)
  from Cons.prems(1,2) have nn: "\<not> list_ex nullable (next_states c Q)"
    and cl: "clear_of (next_states c Q) t" by auto
  from Cons.prems(4) obtain m' where m: "m = Suc m'" by (cases m) auto
  with Cons.prems(3) have "sh q (c # take m' (t @ b))" by simp
  from sh_next [OF this Cons.prems(2)] obtain q' where
    q': "q' \<in> set (next_states c Q)" "sh q' (take m' (t @ b))" by blast
  show ?case
  proof (cases m')
    case 0
    with q' have "nullable q'" by (auto simp: sh_def dest: shape_nullable)
    with q' nn show ?thesis by (auto simp: list_ex_iff)
  next
    case (Suc k)
    with Cons.IH [OF cl q'(1) q'(2)] show ?thesis by simp
  qed
qed

lemma sh_after_first:
  assumes "sh (Lit x # r) (a @ w)" "a \<noteq> []"
  shows "\<exists>q \<in> set (reach r). sh q w"
proof -
  from assms(2) obtain c a' where a: "a = c # a'" by (cases a) auto
  with assms(1) have s: "sh r (a' @ w)" by (auto simp: sh_def)
  have "\<exists>q' \<in> set (reach r). sh q' w" if "sh q (y @ w)" "q \<in> set (reach r)" for q y
    using that
  proof (induction y arbitrary: q)
    case Nil
    then show ?case by auto
  next
    case (Cons d y)
    from Cons.prems(1) obtain pos ms where "shape q (d # y @ w) pos ms"
      by (auto simp: sh_def)
    from shape_step [OF this] obtain q' where q': "q' \<in> set (step d q)" "sh q' (y @ w)"
      by blast
    have "q' \<in> set (reach r)"
      using q'(1) step_reach [of d q] reach_trans [OF Cons.prems(2)] by blast
    with Cons.IH q'(2) show ?case by blast
  qed
  from this [OF s reach_self] show ?thesis .
qed

lemma re_match_shape:
  "re_match p s = Some (n, caps) \<Longrightarrow> n \<le> length s \<and> shape p (take n s) 0 caps"
  unfolding re_match_def using mt_shape [of p s 0 "[]" n caps] by auto

lemma re_sub_Nil:
  "re_sub p r [] = (case re_match p [] of Some (n, caps) \<Rightarrow> expand r [] caps | None \<Rightarrow> [])"
  by (subst re_sub.simps) simp

lemma re_sub_Cons:
  "re_sub p r (c # cs) =
     (case re_match p (c # cs) of
        Some (n, caps) \<Rightarrow>
          if n = 0 then expand r (c # cs) caps @ c # re_sub p r cs
          else expand r (c # cs) caps @ re_sub p r (drop n (c # cs))
      | None \<Rightarrow> c # re_sub p r cs)"
  by (subst re_sub.simps) simp

lemma re_sub_copy:
  "(\<And>k. k < length t \<Longrightarrow> re_match p (drop k t @ b) = None) \<Longrightarrow>
   re_sub p r (t @ b) = t @ re_sub p r b"
proof (induction t)
  case Nil
  then show ?case by simp
next
  case (Cons c t)
  have "re_match p (drop k t @ b) = None" if "k < length t" for k
    using Cons.prems [of "Suc k"] that by simp
  from Cons.IH [OF this] Cons.prems [of 0] show ?case
    by (simp add: re_sub_Cons)
qed

lemma re_sub_frame:
  assumes base: "re_sub p r (t @ b) = X @ R"
    and step: "\<And>a2 n caps. suffix a2 a \<Longrightarrow> a2 \<noteq> [] \<Longrightarrow>
                 re_match p (a2 @ t @ b) = Some (n, caps) \<Longrightarrow>
                 0 < n \<and> (n \<le> length a2
                   \<or> (\<exists>Y. expand r (a2 @ t @ b) caps @ re_sub p r (drop n (a2 @ t @ b)) = Y @ X @ R))"
  shows "\<exists>a'. re_sub p r (a @ t @ b) = a' @ X @ R"
  using step
proof (induction "length a" arbitrary: a rule: less_induct)
  case less
  show ?case
  proof (cases a)
    case Nil
    with base show ?thesis by auto
  next
    case (Cons c a0)
    show ?thesis
    proof (cases "re_match p (a @ t @ b)")
      case None
      have "\<exists>a'. re_sub p r (a0 @ t @ b) = a' @ X @ R"
      proof (rule less.hyps)
        show "length a0 < length a" using Cons by simp
      next
        fix a2 n caps
        assume "suffix a2 a0" "a2 \<noteq> []" "re_match p (a2 @ t @ b) = Some (n, caps)"
        moreover have "suffix a2 a" using \<open>suffix a2 a0\<close> Cons by (simp add: suffix_Cons)
        ultimately show "0 < n \<and> (n \<le> length a2
            \<or> (\<exists>Y. expand r (a2 @ t @ b) caps @ re_sub p r (drop n (a2 @ t @ b)) = Y @ X @ R))"
          using less.prems by blast
      qed
      then obtain a' where "re_sub p r (a0 @ t @ b) = a' @ X @ R" by blast
      with None Cons have "re_sub p r (a @ t @ b) = (c # a') @ X @ R"
        by (simp add: re_sub_Cons)
      then show ?thesis by blast
    next
      case (Some res)
      obtain n caps where res: "res = (n, caps)" by (cases res)
      have ne: "a \<noteq> []" using Cons by simp
      from less.prems [OF suffix_order.refl ne Some [unfolded res]]
      have n0: "0 < n" and alt: "n \<le> length a
            \<or> (\<exists>Y. expand r (a @ t @ b) caps @ re_sub p r (drop n (a @ t @ b)) = Y @ X @ R)"
        by blast+
      have unf: "re_sub p r (a @ t @ b) =
                 expand r (a @ t @ b) caps @ re_sub p r (drop n (a @ t @ b))"
        using Some res n0 Cons by (simp add: re_sub_Cons)
      from alt show ?thesis
      proof
        assume le: "n \<le> length a"
        have "\<exists>a'. re_sub p r (drop n a @ t @ b) = a' @ X @ R"
        proof (rule less.hyps)
          show "length (drop n a) < length a" using n0 Cons by simp
        next
          fix a2 m caps2
          assume "suffix a2 (drop n a)" "a2 \<noteq> []" "re_match p (a2 @ t @ b) = Some (m, caps2)"
          moreover have "suffix a2 a"
            using \<open>suffix a2 (drop n a)\<close> suffix_drop suffix_order.trans by blast
          ultimately show "0 < m \<and> (m \<le> length a2
              \<or> (\<exists>Y. expand r (a2 @ t @ b) caps2 @ re_sub p r (drop m (a2 @ t @ b)) = Y @ X @ R))"
            using less.prems by blast
        qed
        then obtain a' where "re_sub p r (drop n a @ t @ b) = a' @ X @ R" by blast
        with unf le have "re_sub p r (a @ t @ b) = (expand r (a @ t @ b) caps @ a') @ X @ R"
          by simp
        then show ?thesis by blast
      next
        assume "\<exists>Y. expand r (a @ t @ b) caps @ re_sub p r (drop n (a @ t @ b)) = Y @ X @ R"
        with unf show ?thesis by auto
      qed
    qed
  qed
qed

lemma no_overlap:
  assumes m: "re_match (Lit x # q) (a @ t @ b) = Some (n, caps)"
    and a: "a \<noteq> []" and c: "clear_of (reach q) t"
  shows "0 < n \<and> n \<le> length a"
proof -
  from re_match_shape [OF m] have n: "n \<le> length (a @ t @ b)"
    and s: "shape (Lit x # q) (take n (a @ t @ b)) 0 caps" by simp_all
  from s have n0: "0 < n" by (cases n) auto
  have "n \<le> length a"
  proof (rule ccontr)
    assume "\<not> n \<le> length a"
    then have t: "take n (a @ t @ b) = a @ take (n - length a) (t @ b)" and p: "0 < n - length a"
      by simp_all
    from s have "sh (Lit x # q) (a @ take (n - length a) (t @ b))"
      unfolding sh_def t by blast
    from sh_after_first [OF this a] obtain q' where "q' \<in> set (reach q)"
      "sh q' (take (n - length a) (t @ b))" by blast
    from clear_of_sound [OF c this p] show False .
  qed
  with n0 show ?thesis by simp
qed

text \<open>A text that no match can run into or begin in is copied by the substitution.\<close>

lemma re_sub_keeps:
  assumes p: "p = Lit x # q" and c: "clear_of (reach q) t"
    and base: "re_sub p r (t @ b) = X @ R"
  shows "\<exists>a'. re_sub p r (a @ t @ b) = a' @ X @ R"
proof (rule re_sub_frame [OF base])
  fix a2 n caps
  assume "a2 \<noteq> []" "re_match p (a2 @ t @ b) = Some (n, caps)"
  with no_overlap [of x q a2 t b n caps] p c
  show "0 < n \<and> (n \<le> length a2
      \<or> (\<exists>Y. expand r (a2 @ t @ b) caps @ re_sub p r (drop n (a2 @ t @ b)) = Y @ X @ R))"
    by simp
qed

lemma shape_lits:
  "shape (lits name @ r) w pos ms \<longleftrightarrow> (\<exists>v. w = name @ v \<and> shape r v (pos + length name) ms)"
  by (induction name arbitrary: w pos) (auto simp: lits_def)


lemma shape_la:
  "la = [] \<or> la = [NotAhead q] \<Longrightarrow> shape la v pos ms \<Longrightarrow> v = [] \<and> ms = []"
  by auto

lemma shape_LitE:
  assumes "shape (Lit c # r) w pos ms"
  obtains v where "w = c # v" "shape r v (Suc pos) ms"
  using assms by auto

lemma shape_ManyE:
  assumes "shape (Many k # r) w pos ms"
  obtains u v where "w = u @ v" "list_all (in_cls k) u" "shape r v (pos + length u) ms"
  using assms by auto

lemma shape_Many1E:
  assumes "shape (Many1 k # r) w pos ms"
  obtains u v where "w = u @ v" "u \<noteq> []" "list_all (in_cls k) u" "shape r v (pos + length u) ms"
  using assms by auto

lemma shape_GOpenE:
  assumes "shape (GOpen # r) w pos ms"
  obtains ms' where "ms = pos # ms'" "shape r w pos ms'"
  using assms by auto

lemma shape_GCloseE:
  assumes "shape (GClose # r) w pos ms"
  obtains ms' where "ms = pos # ms'" "shape r w pos ms'"
  using assms by auto

lemma call_shape:
  assumes "shape (call_pattern name la) w 0 caps" "la = [] \<or> la = [NotAhead q]"
  shows "\<exists>x1 g u. w = x1 @ g @ u @ '')'' \<and> caps = [length x1, length x1 + length g]
           \<and> g \<noteq> [] \<and> list_all (\<lambda>c. c \<noteq> CHR '')'') g \<and> list_all is_space u
           \<and> list_all (\<lambda>c. c \<in> set name \<or> is_space c \<or> c = CHR ''('') x1"
proof -
  from assms(1) obtain v where w: "w = name @ v"
    and v: "shape (Many Space # Lit CHR ''('' # Many Space # GOpen # Many1 NotRParen # GClose #
        Many Space # Lit CHR '')'' # la) v (length name) caps"
    unfolding call_pattern_def shape_lits by (auto simp del: shape.simps)
  from v obtain u1 v1 where 1: "v = u1 @ v1" "list_all (in_cls Space) u1"
    and v1: "shape (Lit CHR ''('' # Many Space # GOpen # Many1 NotRParen # GClose #
        Many Space # Lit CHR '')'' # la) v1 (length name + length u1) caps"
    by (rule shape_ManyE)
  from v1 obtain v2 where 2: "v1 = CHR ''('' # v2"
    and v2: "shape (Many Space # GOpen # Many1 NotRParen # GClose #
        Many Space # Lit CHR '')'' # la) v2 (Suc (length name + length u1)) caps"
    by (rule shape_LitE)
  from v2 obtain u2 v3 where 3: "v2 = u2 @ v3" "list_all (in_cls Space) u2"
    and v3: "shape (GOpen # Many1 NotRParen # GClose #
        Many Space # Lit CHR '')'' # la) v3 (Suc (length name + length u1) + length u2) caps"
    by (rule shape_ManyE)
  from v3 obtain ms1 where 4: "caps = (Suc (length name + length u1) + length u2) # ms1"
    and v4: "shape (Many1 NotRParen # GClose #
        Many Space # Lit CHR '')'' # la) v3 (Suc (length name + length u1) + length u2) ms1"
    by (rule shape_GOpenE)
  from v4 obtain g v5 where 5: "v3 = g @ v5" "g \<noteq> []" "list_all (in_cls NotRParen) g"
    and v5: "shape (GClose # Many Space # Lit CHR '')'' # la) v5
               (Suc (length name + length u1) + length u2 + length g) ms1"
    by (rule shape_Many1E)
  from v5 obtain ms2 where 6: "ms1 = (Suc (length name + length u1) + length u2 + length g) # ms2"
    and v6: "shape (Many Space # Lit CHR '')'' # la) v5
               (Suc (length name + length u1) + length u2 + length g) ms2"
    by (rule shape_GCloseE)
  from v6 obtain u v7 where 7: "v5 = u @ v7" "list_all (in_cls Space) u"
    and v7: "shape (Lit CHR '')'' # la) v7
               (Suc (length name + length u1) + length u2 + length g + length u) ms2"
    by (rule shape_ManyE)
  from v7 obtain v8 where 8: "v7 = CHR '')'' # v8"
    and v8: "shape la v8
               (Suc (Suc (length name + length u1) + length u2 + length g + length u)) ms2"
    by (rule shape_LitE)
  from shape_la [OF assms(2) v8] have 9: "v8 = []" "ms2 = []" by simp_all
  let ?x1 = "name @ u1 @ CHR ''('' # u2"
  have "w = ?x1 @ g @ u @ '')''" using w 1 2 3 5 7 8 9 by simp
  moreover have "caps = [length ?x1, length ?x1 + length g]" using 4 6 9 by simp
  moreover have "list_all (\<lambda>c. c \<noteq> CHR '')'') g" using 5 by (simp add: list_all_iff)
  moreover have "list_all is_space u" using 7 by (simp add: list_all_iff)
  moreover have "list_all (\<lambda>c. c \<in> set name \<or> is_space c \<or> c = CHR ''('') ?x1"
    using 1 3 by (auto simp: list_all_iff)
  ultimately show ?thesis using 5(2) by blast
qed

lemma first_sep_unique:
  "c \<notin> set z \<Longrightarrow> c \<notin> set o1 \<Longrightarrow> z @ c # d = o1 @ c # e \<Longrightarrow> z = o1 \<and> d = e"
proof (induction z arbitrary: o1)
  case Nil
  then show ?case by (cases o1) auto
next
  case (Cons x z)
  then show ?case by (cases o1) auto
qed

lemma call_overlap:
  assumes p: "p = call_pattern name la" "la = [] \<or> la = [NotAhead q]"
    and tpl: "r = [RLit pre, RGrp 1, RLit '')'']"
    and m: "re_match p (a @ o1 @ '')'' @ rest) = Some (n, caps)"
    and n: "length a < n"
    and o1: "o1 \<noteq> []" "list_all (\<lambda>c. c \<noteq> CHR '')'' \<and> \<not> is_space c) o1"
            "hd o1 \<notin> set name" "hd o1 \<noteq> CHR ''(''"
    and name: "CHR '')'' \<notin> set name"
  shows "n = length a + length o1 + 1
         \<and> (\<exists>Y. expand r (a @ o1 @ '')'' @ rest) caps = Y @ o1 @ '')'')"
proof -
  define s where "s = a @ o1 @ '')'' @ rest"
  define d where "d = drop n s"
  from re_match_shape [OF m] p have nl: "n \<le> length s"
    and sh: "shape (call_pattern name la) (take n s) 0 caps" by (simp_all add: s_def)
  from call_shape [OF sh p(2)] obtain x1 g u where
    w: "take n s = x1 @ g @ u @ '')''" and caps: "caps = [length x1, length x1 + length g]"
    and g: "g \<noteq> []" "list_all (\<lambda>c. c \<noteq> CHR '')'') g" and u: "list_all is_space u"
    and x1: "list_all (\<lambda>c. c \<in> set name \<or> is_space c \<or> c = CHR ''('') x1"
    by blast
  have sp: "\<not> is_space CHR '')''" by (simp add: is_space_def)
  have nop: "CHR '')'' \<notin> set (x1 @ g @ u)"
    using g u x1 name sp by (auto simp: list_all_iff)
  have len: "n = length (x1 @ g @ u) + 1"
    using arg_cong [OF w, of length] nl by simp
  have "s = take n s @ d" unfolding d_def by simp
  then have s_eq: "s = (x1 @ g @ u) @ CHR '')'' # d" unfolding w by simp
  have s_a: "s = a @ o1 @ CHR '')'' # rest" by (simp add: s_def)
  from n len have la: "length a \<le> length (x1 @ g @ u)" by simp
  have "take (length a) s = a" unfolding s_a by simp
  moreover have "take (length a) s = take (length a) (x1 @ g @ u)"
    using la by (subst s_eq) simp
  ultimately have "take (length a) (x1 @ g @ u) = a" by simp
  then obtain z where z: "x1 @ g @ u = a @ z"
    by (metis append_take_drop_id)
  with nop have zp: "CHR '')'' \<notin> set z" by (metis Un_iff set_append)
  from o1(2) have op: "CHR '')'' \<notin> set o1" by (auto simp: list_all_iff)
  from s_eq z s_a have "a @ z @ CHR '')'' # d = a @ o1 @ CHR '')'' # rest" by simp
  then have "z @ CHR '')'' # d = o1 @ CHR '')'' # rest" by simp
  with first_sep_unique [OF zp op] have zo: "z = o1" by blast
  with z have e: "x1 @ g @ u = a @ o1" by simp
  have u0: "u = []"
  proof (rule ccontr)
    assume "u \<noteq> []"
    then have "last (x1 @ g @ u) = last u" by simp
    moreover have "last (a @ o1) = last o1" using o1(1) by simp
    ultimately have "last u = last o1" using e by simp
    moreover have "is_space (last u)" using u \<open>u \<noteq> []\<close> by (simp add: list_all_iff)
    moreover have "\<not> is_space (last o1)" using o1(1,2) by (simp add: list_all_iff)
    ultimately show False by simp
  qed
  with e have e2: "x1 @ g = a @ o1" by simp
  have "\<exists>y. a = x1 @ y \<and> g = y @ o1"
  proof -
    from e2 consider y where "a = x1 @ y" "g = y @ o1"
      | y where "y \<noteq> []" "x1 = a @ y" "o1 = y @ g"
      unfolding append_eq_append_conv2 by (metis append_Nil2 append_Nil)
    then show ?thesis
    proof cases
      case 1
      then show ?thesis by blast
    next
      case 2
      then have "hd o1 \<in> set x1" by (cases y) auto
      with x1 have "hd o1 \<in> set name \<or> is_space (hd o1) \<or> hd o1 = CHR ''(''"
        by (auto simp: list_all_iff)
      moreover have "\<not> is_space (hd o1)" using o1(1,2) by (simp add: list_all_iff)
      ultimately show ?thesis using o1(3,4) by blast
    qed
  qed
  then obtain y where y: "a = x1 @ y" "g = y @ o1" by blast
  have "group s caps 1 = g"
  proof -
    have "s = x1 @ g @ CHR '')'' # d" using s_eq u0 by simp
    then have "drop (length x1) s = g @ CHR '')'' # d"
      by (metis append_eq_conv_conj)
    then show ?thesis unfolding group_def caps by (simp add: cap_def)
  qed
  then have "expand r s caps = (pre @ y) @ o1 @ '')''" using tpl y by simp
  moreover have "n = length a + length o1 + 1" using len e by (metis length_append)
  ultimately show ?thesis unfolding s_def by blast
qed

lemma re_sub_keeps_call:
  assumes p: "p = call_pattern name la" "la = [] \<or> la = [NotAhead q]"
    and tpl: "r = [RLit pre, RGrp 1, RLit '')'']"
    and o1: "o1 \<noteq> []" "list_all (\<lambda>c. c \<noteq> CHR '')'' \<and> \<not> is_space c) o1"
            "hd o1 \<notin> set name" "hd o1 \<noteq> CHR ''(''"
    and name: "CHR '')'' \<notin> set name"
    and base1: "re_sub p r ((o1 @ '')'' @ o2) @ b) = (o1 @ '')'' @ o2) @ R"
    and base2: "re_sub p r (o2 @ b) = o2 @ R"
  shows "\<exists>a'. re_sub p r (a @ (o1 @ '')'' @ o2) @ b) = a' @ (o1 @ '')'' @ o2) @ R"
proof (rule re_sub_frame [OF base1])
  fix a2 n caps
  assume a2: "a2 \<noteq> []" and m: "re_match p (a2 @ (o1 @ '')'' @ o2) @ b) = Some (n, caps)"
  let ?s = "a2 @ (o1 @ '')'' @ o2) @ b"
  from re_match_shape [OF m] p have "shape (call_pattern name la) (take n ?s) 0 caps" by simp
  from call_shape [OF this p(2)] have n0: "0 < n" by (cases n) auto
  show "0 < n \<and> (n \<le> length a2
      \<or> (\<exists>Y. expand r ?s caps @ re_sub p r (drop n ?s) = Y @ (o1 @ '')'' @ o2) @ R))"
  proof (cases "n \<le> length a2")
    case True
    with n0 show ?thesis by simp
  next
    case False
    then have l: "length a2 < n" by simp
    from m have m': "re_match p (a2 @ o1 @ '')'' @ (o2 @ b)) = Some (n, caps)" by simp
    from call_overlap [OF p tpl m' l o1 name] obtain Y where
      n: "n = length a2 + length o1 + 1" and e: "expand r ?s caps = Y @ o1 @ '')''" by auto
    have "drop n ?s = o2 @ b" unfolding n by simp
    with e base2 have "expand r ?s caps @ re_sub p r (drop n ?s) = Y @ (o1 @ '')'' @ o2) @ R"
      by simp
    with n0 show ?thesis by blast
  qed
qed

lemma py_replace_once:
  assumes "old \<noteq> []"
  shows "py_replace s old new 1 = s
         \<or> (\<exists>x y. s = x @ old @ y \<and> py_replace s old new 1 = x @ new @ y)"
proof (induction s)
  case Nil
  show ?case using assms by (subst py_replace.simps) simp
next
  case (Cons c cs)
  show ?case
  proof (cases "prefix old (c # cs)")
    case True
    then obtain y where y: "c # cs = old @ y" by (auto simp: prefix_def)
    have "py_replace (drop (length old) (c # cs)) old new 0 = drop (length old) (c # cs)"
      by (subst py_replace.simps) simp
    then have "py_replace (c # cs) old new 1 = new @ drop (length old) (c # cs)"
      using True assms by (subst py_replace.simps) simp
    also have "drop (length old) (c # cs) = y" unfolding y by simp
    finally have "py_replace (c # cs) old new 1 = [] @ new @ y" by simp
    with y show ?thesis by (metis append_Nil)
  next
    case False
    then have u: "py_replace (c # cs) old new 1 = c # py_replace cs old new 1"
      using assms by (subst py_replace.simps) simp
    from Cons.IH show ?thesis
    proof
      assume "py_replace cs old new 1 = cs"
      with u show ?thesis by simp
    next
      assume "\<exists>x y. cs = x @ old @ y \<and> py_replace cs old new 1 = x @ new @ y"
      then obtain x y where "cs = x @ old @ y" "py_replace cs old new 1 = x @ new @ y" by blast
      with u have "c # cs = (c # x) @ old @ y \<and> py_replace (c # cs) old new 1 = (c # x) @ new @ y"
        by simp
      then show ?thesis by blast
    qed
  qed
qed

lemma split_around:
  assumes "u @ c # y = a @ t @ b" "c \<notin> set t"
  shows "(\<exists>p2. u = a @ t @ p2) \<or> (\<exists>p1. y = p1 @ t @ b)"
proof -
  from assms(1) consider w where "u = a @ w" "w @ c # y = t @ b"
    | w where "u @ w = a" "c # y = w @ t @ b"
    by (auto simp: append_eq_append_conv2)
  then show ?thesis
  proof cases
    case 1
    from 1(2) consider w2 where "w = t @ w2" | w2 where "w @ w2 = t" "c # y = w2 @ b"
      by (auto simp: append_eq_append_conv2)
    then show ?thesis
    proof cases
      case 1
      with \<open>u = a @ w\<close> show ?thesis by simp
    next
      case 2
      show ?thesis
      proof (cases w2)
        case Nil
        with 2 \<open>u = a @ w\<close> show ?thesis by simp
      next
        case (Cons d w2')
        with 2 have "c \<in> set t" by auto
        with assms(2) show ?thesis by simp
      qed
    qed
  next
    case 2
    show ?thesis
    proof (cases w)
      case Nil
      with 2 have ua: "u = a" and e: "c # y = t @ b" by simp_all
      show ?thesis
      proof (cases t)
        case Nil
        with ua show ?thesis by simp
      next
        case (Cons d t')
        with e assms(2) show ?thesis by simp
      qed
    next
      case (Cons d w')
      with 2 have "y = w' @ t @ b" by simp
      then show ?thesis by blast
    qed
  qed
qed

lemma inject_keeps:
  assumes "c \<notin> set t" "old = old' @ [c]"
  shows "\<exists>a' b'. py_replace (a @ t @ b) old (old @ ins) 1 = a' @ t @ b'"
proof -
  have "old \<noteq> []" using assms(2) by simp
  from py_replace_once [OF this, of "a @ t @ b" "old @ ins"]
  show ?thesis
  proof
    assume "py_replace (a @ t @ b) old (old @ ins) 1 = a @ t @ b"
    then show ?thesis by blast
  next
    assume "\<exists>x y. a @ t @ b = x @ old @ y
              \<and> py_replace (a @ t @ b) old (old @ ins) 1 = x @ (old @ ins) @ y"
    then obtain x y where s: "a @ t @ b = x @ old @ y"
      and r: "py_replace (a @ t @ b) old (old @ ins) 1 = x @ (old @ ins) @ y" by blast
    from s assms(2) have "(x @ old') @ c # y = a @ t @ b" by simp
    from split_around [OF this assms(1)] show ?thesis
    proof
      assume "\<exists>p2. x @ old' = a @ t @ p2"
      then obtain p2 where "x @ old' = a @ t @ p2" by blast
      then have "x @ (old @ ins) @ y = a @ t @ (p2 @ c # ins @ y)"
        using assms(2) by (metis append.assoc append_Cons append_Nil)
      with r show ?thesis by metis
    next
      assume "\<exists>p1. y = p1 @ t @ b"
      then obtain p1 where "y = p1 @ t @ b" by blast
      then have "x @ (old @ ins) @ y = (x @ old @ ins @ p1) @ t @ b" by simp
      with r show ?thesis by metis
    qed
  qed
qed

lemma turns_comp: "turns f t u \<Longrightarrow> turns g u v \<Longrightarrow> turns (\<lambda>s. g (f s)) t v"
  unfolding turns_def by metis

lemma turns_sub:
  assumes "starts_with_lit p" "clear_of (reach (tl p)) t"
    and base: "\<And>b. re_sub p r (t @ b) = t' @ re_sub p r b"
  shows "turns (re_sub p r) t t'"
proof -
  from assms(1) obtain x q where p: "p = Lit x # q"
    by (auto simp: starts_with_lit_def split: list.splits atom.splits)
  with assms(2) have c: "clear_of (reach q) t" by simp
  show ?thesis
    unfolding turns_def using re_sub_keeps [OF p c base] by blast
qed

lemma turns_sub_call:
  assumes p: "p = call_pattern name la" "la = [] \<or> la = [NotAhead q]"
    and tpl: "r = [RLit pre, RGrp 1, RLit '')'']"
    and t: "t = o1 @ '')'' @ o2"
    and o1: "o1 \<noteq> []" "list_all (\<lambda>c. c \<noteq> CHR '')'' \<and> \<not> is_space c) o1"
            "hd o1 \<notin> set name" "hd o1 \<noteq> CHR ''(''"
    and name: "CHR '')'' \<notin> set name"
    and base1: "\<And>b. re_sub p r (t @ b) = t @ re_sub p r b"
    and base2: "\<And>b. re_sub p r (o2 @ b) = o2 @ re_sub p r b"
  shows "turns (re_sub p r) t t"
  unfolding turns_def t
  using re_sub_keeps_call [OF p tpl o1 name base1 [unfolded t] base2] by blast

lemma turns_inject:
  assumes "CHR 0x22 \<notin> set t"
  shows "turns (\<lambda>s. py_replace s anchor_include (anchor_include @ ins) 1) t t"
proof -
  have "anchor_include = butlast anchor_include @ [CHR 0x22]"
    by (simp add: anchor_include_def)
  from inject_keeps [OF assms this] show ?thesis unfolding turns_def by blast
qed

lemma returned_refactor:
  "returned (refactor_parser_memory s) =
     re_sub strdup_pattern mem_strdup_template
      (re_sub malloc_generic_pattern mem_alloc_template
        (re_sub calloc_array_pattern mem_new_array_template
          (re_sub calloc_one_pattern mem_new_template
            (re_sub malloc_array_pattern mem_new_array_template
              (re_sub malloc_sizeof_pattern mem_new_template
                (re_sub stdlib_pattern []
                  (py_replace s anchor_include (anchor_include @ ''\<newline>'' @ includes_text) 1)))))))"
  by (simp add: refactor_parser_memory_def Let_def replacements_def)

lemmas ev = re_sub_Cons re_match_def lits_def is_space_def is_word_def group_def cap_def alloc_arg_def

lemma generic_is_call: "malloc_generic_pattern = call_pattern ''malloc'' [NotAhead sizeof_ahead]"
  by (simp add: malloc_generic_pattern_def call_pattern_def)

lemma strdup_is_call: "strdup_pattern = call_pattern ''strdup'' []"
  by (simp add: strdup_pattern_def call_pattern_def)


lemma array_1: "turns (\<lambda>s. py_replace s anchor_include (anchor_include @ ins) 1) array_call array_call"
  by (rule turns_inject) (simp add: array_call_def)

lemma array_2: "turns (re_sub stdlib_pattern []) array_call array_call"
proof (rule turns_sub)
  show "starts_with_lit stdlib_pattern" by code_simp
  show "clear_of (reach (tl stdlib_pattern)) array_call" by code_simp
  show "re_sub stdlib_pattern [] (array_call @ b) = array_call @ re_sub stdlib_pattern [] b" for b
    by (simp add: ev array_call_def stdlib_pattern_def)
qed

lemma array_3: "turns (re_sub malloc_sizeof_pattern mem_new_template) array_call array_call"
proof (rule turns_sub)
  show "starts_with_lit malloc_sizeof_pattern" by code_simp
  show "clear_of (reach (tl malloc_sizeof_pattern)) array_call" by code_simp
  show "re_sub malloc_sizeof_pattern mem_new_template (array_call @ b)
        = array_call @ re_sub malloc_sizeof_pattern mem_new_template b" for b
    by (simp add: ev array_call_def malloc_sizeof_pattern_def)
qed

lemma array_4: "turns (re_sub malloc_array_pattern mem_new_array_template) array_call array_form"
proof (rule turns_sub)
  show "starts_with_lit malloc_array_pattern" by code_simp
  show "clear_of (reach (tl malloc_array_pattern)) array_call" by code_simp
  show "re_sub malloc_array_pattern mem_new_array_template (array_call @ b)
        = array_form @ re_sub malloc_array_pattern mem_new_array_template b" for b
    by (simp add: ev array_call_def array_form_def malloc_array_pattern_def mem_new_array_template_def)
qed

lemma array_5: "turns (re_sub calloc_one_pattern mem_new_template) array_form array_form"
proof (rule turns_sub)
  show "starts_with_lit calloc_one_pattern" by code_simp
  show "clear_of (reach (tl calloc_one_pattern)) array_form" by code_simp
  show "re_sub calloc_one_pattern mem_new_template (array_form @ b)
        = array_form @ re_sub calloc_one_pattern mem_new_template b" for b
    by (simp add: ev array_form_def calloc_one_pattern_def)
qed

lemma array_6: "turns (re_sub calloc_array_pattern mem_new_array_template) array_form array_form"
proof (rule turns_sub)
  show "starts_with_lit calloc_array_pattern" by code_simp
  show "clear_of (reach (tl calloc_array_pattern)) array_form" by code_simp
  show "re_sub calloc_array_pattern mem_new_array_template (array_form @ b)
        = array_form @ re_sub calloc_array_pattern mem_new_array_template b" for b
    by (simp add: ev array_form_def calloc_array_pattern_def)
qed

lemma array_7: "turns (re_sub malloc_generic_pattern mem_alloc_template) array_form array_form"
proof (rule turns_sub_call [OF generic_is_call])
  show "[NotAhead sizeof_ahead] = [] \<or> [NotAhead sizeof_ahead] = [NotAhead sizeof_ahead]" by simp
  show "mem_alloc_template = [RLit (''MEM_ALLOC'' @ alloc_arg), RGrp 1, RLit '')'']"
    by (simp add: mem_alloc_template_def)
  show "array_form = ''MEM_NEW_ARRAY(allocators_get(ALLOC_SYSTEM_PARSER'' @ '')'' @ '', Bar, n)''"
    by (simp add: array_form_def)
  show "re_sub malloc_generic_pattern mem_alloc_template (array_form @ b)
        = array_form @ re_sub malloc_generic_pattern mem_alloc_template b" for b
    by (simp add: ev array_form_def malloc_generic_pattern_def)
  show "re_sub malloc_generic_pattern mem_alloc_template ('', Bar, n)'' @ b)
        = '', Bar, n)'' @ re_sub malloc_generic_pattern mem_alloc_template b" for b
    by (simp add: ev malloc_generic_pattern_def)
qed (simp_all add: is_space_def)

lemma array_8: "turns (re_sub strdup_pattern mem_strdup_template) array_form array_form"
proof (rule turns_sub_call [OF strdup_is_call])
  show "[] = [] \<or> [] = [NotAhead sizeof_ahead]" by simp
  show "mem_strdup_template = [RLit (''MEM_STRDUP'' @ alloc_arg), RGrp 1, RLit '')'']"
    by (simp add: mem_strdup_template_def)
  show "array_form = ''MEM_NEW_ARRAY(allocators_get(ALLOC_SYSTEM_PARSER'' @ '')'' @ '', Bar, n)''"
    by (simp add: array_form_def)
  show "re_sub strdup_pattern mem_strdup_template (array_form @ b)
        = array_form @ re_sub strdup_pattern mem_strdup_template b" for b
    by (simp add: ev array_form_def strdup_pattern_def)
  show "re_sub strdup_pattern mem_strdup_template ('', Bar, n)'' @ b)
        = '', Bar, n)'' @ re_sub strdup_pattern mem_strdup_template b" for b
    by (simp add: ev strdup_pattern_def)
qed (simp_all add: is_space_def)

lemma array_all: "turns (\<lambda>s. returned (refactor_parser_memory s)) array_call array_form"
  unfolding returned_refactor
  by (intro turns_comp [OF array_1] turns_comp [OF array_2] turns_comp [OF array_3]
      turns_comp [OF array_4] turns_comp [OF array_5] turns_comp [OF array_6]
      turns_comp [OF array_7] array_8)

lemma free_1: "turns (\<lambda>s. py_replace s anchor_include (anchor_include @ ins) 1) free_call free_call"
  by (rule turns_inject) (simp add: free_call_def)

lemma free_2: "turns (re_sub stdlib_pattern []) free_call free_call"
proof (rule turns_sub)
  show "starts_with_lit stdlib_pattern" by code_simp
  show "clear_of (reach (tl stdlib_pattern)) free_call" by code_simp
  show "re_sub stdlib_pattern [] (free_call @ b) = free_call @ re_sub stdlib_pattern [] b" for b
    by (simp add: ev free_call_def stdlib_pattern_def)
qed

lemma free_3: "turns (re_sub malloc_sizeof_pattern mem_new_template) free_call free_call"
proof (rule turns_sub)
  show "starts_with_lit malloc_sizeof_pattern" by code_simp
  show "clear_of (reach (tl malloc_sizeof_pattern)) free_call" by code_simp
  show "re_sub malloc_sizeof_pattern mem_new_template (free_call @ b)
        = free_call @ re_sub malloc_sizeof_pattern mem_new_template b" for b
    by (simp add: ev free_call_def malloc_sizeof_pattern_def)
qed

lemma free_4: "turns (re_sub malloc_array_pattern mem_new_array_template) free_call free_call"
proof (rule turns_sub)
  show "starts_with_lit malloc_array_pattern" by code_simp
  show "clear_of (reach (tl malloc_array_pattern)) free_call" by code_simp
  show "re_sub malloc_array_pattern mem_new_array_template (free_call @ b)
        = free_call @ re_sub malloc_array_pattern mem_new_array_template b" for b
    by (simp add: ev free_call_def malloc_array_pattern_def)
qed

lemma free_5: "turns (re_sub calloc_one_pattern mem_new_template) free_call free_call"
proof (rule turns_sub)
  show "starts_with_lit calloc_one_pattern" by code_simp
  show "clear_of (reach (tl calloc_one_pattern)) free_call" by code_simp
  show "re_sub calloc_one_pattern mem_new_template (free_call @ b)
        = free_call @ re_sub calloc_one_pattern mem_new_template b" for b
    by (simp add: ev free_call_def calloc_one_pattern_def)
qed

lemma free_6: "turns (re_sub calloc_array_pattern mem_new_array_template) free_call free_call"
proof (rule turns_sub)
  show "starts_with_lit calloc_array_pattern" by code_simp
  show "clear_of (reach (tl calloc_array_pattern)) free_call" by code_simp
  show "re_sub calloc_array_pattern mem_new_array_template (free_call @ b)
        = free_call @ re_sub calloc_array_pattern mem_new_array_template b" for b
    by (simp add: ev free_call_def calloc_array_pattern_def)
qed

lemma free_7: "turns (re_sub malloc_generic_pattern mem_alloc_template) free_call free_call"
proof (rule turns_sub_call [OF generic_is_call])
  show "[NotAhead sizeof_ahead] = [] \<or> [NotAhead sizeof_ahead] = [NotAhead sizeof_ahead]" by simp
  show "mem_alloc_template = [RLit (''MEM_ALLOC'' @ alloc_arg), RGrp 1, RLit '')'']"
    by (simp add: mem_alloc_template_def)
  show "free_call = ''free(ptr'' @ '')'' @ []"
    by (simp add: free_call_def)
  show "re_sub malloc_generic_pattern mem_alloc_template (free_call @ b)
        = free_call @ re_sub malloc_generic_pattern mem_alloc_template b" for b
    by (simp add: ev free_call_def malloc_generic_pattern_def)
qed (simp_all add: is_space_def)

lemma free_8: "turns (re_sub strdup_pattern mem_strdup_template) free_call free_call"
proof (rule turns_sub_call [OF strdup_is_call])
  show "[] = [] \<or> [] = [NotAhead sizeof_ahead]" by simp
  show "mem_strdup_template = [RLit (''MEM_STRDUP'' @ alloc_arg), RGrp 1, RLit '')'']"
    by (simp add: mem_strdup_template_def)
  show "free_call = ''free(ptr'' @ '')'' @ []"
    by (simp add: free_call_def)
  show "re_sub strdup_pattern mem_strdup_template (free_call @ b)
        = free_call @ re_sub strdup_pattern mem_strdup_template b" for b
    by (simp add: ev free_call_def strdup_pattern_def)
qed (simp_all add: is_space_def)

lemma free_all: "turns (\<lambda>s. returned (refactor_parser_memory s)) free_call free_call"
  unfolding returned_refactor
  by (intro turns_comp [OF free_1] turns_comp [OF free_2] turns_comp [OF free_3]
      turns_comp [OF free_4] turns_comp [OF free_5] turns_comp [OF free_6]
      turns_comp [OF free_7] free_8)

lemma contains_mid: "contains t (a @ t @ b)"
proof (induction a)
  case Nil
  show ?case by (cases t; cases b) simp_all
next
  case (Cons c a)
  then show ?case by simp
qed

lemma cx7: \<open>re_finditer free_pattern ''free(strdup(s));'' = [(0, ''free(strdup(s)'')]
  \<and> returned (refactor_parser_memory ''free(strdup(s));'')
      = ''free(MEM_STRDUP(allocators_get(ALLOC_SYSTEM_PARSER), s));''
  \<and> \<not> contains ''free(strdup(s)'' (returned (refactor_parser_memory ''free(strdup(s));''))\<close>
  by code_simp

lemma f1: \<open>free_calls (refactor_parser_memory ''free(ptr)'') = [(1, ''free(ptr)'')]
  \<and> free_calls (refactor_parser_memory ''void f(char *ptr)\<newline>{\<newline>    free(ptr);\<newline>}\<newline>'') = [(3, ''free(ptr)'')]\<close>
  by code_simp

lemma m100: \<open>returned (refactor_parser_memory ''malloc(100)'') = ''MEM_ALLOC(allocators_get(ALLOC_SYSTEM_PARSER), 100)''\<close>
  by code_simp

end
